theory Spec2Isabelle
  imports Complex_Main "HOL-Library.List_Lexorder" "HOL-Library.Product_Lexorder"
    "HOL-Library.Sublist" "HOL-Library.Multiset"
begin

section \<open>JavaScript numbers\<close>

text \<open>
  A JavaScript number is an IEEE-754 binary64 value.  The finite values are modelled by the
  rationals they denote, the three special values by constructors of their own.  The sign of
  zero is not tracked (\<open>Num 0\<close> stands for both zeros): the accumulators of the aggregation
  start at \<open>+0\<close>, and a sum of two doubles of which the first is not \<open>-0\<close> is never \<open>-0\<close>,
  so every divisor the program divides by is \<open>+0\<close> when it is zero.
\<close>

datatype jsnum = Num rat | PosInf | NegInf | NaN

definition pow2 :: "int \<Rightarrow> rat" where
  "pow2 k = (if 0 \<le> k then 2 ^ nat k else 1 / 2 ^ nat (- k))"

text \<open>The number of binary digits of a positive integer.\<close>

function bits :: "int \<Rightarrow> int" where
  "bits n = (if n \<le> 0 then 0 else 1 + bits (n div 2))"
  by pat_completeness auto
termination
  by (relation "measure nat") auto

declare bits.simps [simp del]

text \<open>\<open>ilog2 q\<close> is the integer \<open>e\<close> with \<open>2 ^ e \<le> q < 2 ^ (e + 1)\<close>, for \<open>q > 0\<close>.\<close>

definition ilog2 :: "rat \<Rightarrow> int" where
  "ilog2 q =
     (let (a, b) = quotient_of q;
          k = bits a - bits b
      in if pow2 k \<le> q then k else k - 1)"

text \<open>Rounding to the nearest integer, ties to the even one.\<close>

definition round_even :: "rat \<Rightarrow> int" where
  "round_even x =
     (let f = \<lfloor>x\<rfloor>; d = x - of_int f
      in if d < 1 / 2 then f
         else if 1 / 2 < d then f + 1
         else if even f then f else f + 1)"

text \<open>
  \<open>fl q\<close> is the binary64 value nearest to the rational \<open>q\<close> (round to nearest, ties to
  even): 53 significant bits, least exponent \<open>-1022\<close> (subnormals below), overflow to an
  infinity from \<open>2 ^ 1024\<close> on.
\<close>

definition fl :: "rat \<Rightarrow> jsnum" where
  "fl q =
     (if q = 0 then Num 0
      else let a = \<bar>q\<bar>;
               e = max (ilog2 a) (- 1022);
               u = pow2 (e - 52);
               r = of_int (round_even (a / u)) * u
           in if pow2 1024 \<le> r then (if 0 < q then PosInf else NegInf)
              else Num (if 0 < q then r else - r))"

text \<open>The operator \<open>+\<close> on numbers.\<close>

fun jsadd :: "jsnum \<Rightarrow> jsnum \<Rightarrow> jsnum" where
  "jsadd NaN _ = NaN"
| "jsadd _ NaN = NaN"
| "jsadd PosInf NegInf = NaN"
| "jsadd NegInf PosInf = NaN"
| "jsadd PosInf _ = PosInf"
| "jsadd _ PosInf = PosInf"
| "jsadd NegInf _ = NegInf"
| "jsadd _ NegInf = NegInf"
| "jsadd (Num a) (Num b) = fl (a + b)"

text \<open>The operator \<open>/\<close> on numbers (a zero divisor is \<open>+0\<close>, see above).\<close>

fun jsdiv :: "jsnum \<Rightarrow> jsnum \<Rightarrow> jsnum" where
  "jsdiv NaN _ = NaN"
| "jsdiv _ NaN = NaN"
| "jsdiv (Num a) (Num b) =
     (if b = 0 then (if a = 0 then NaN else if 0 < a then PosInf else NegInf)
      else fl (a / b))"
| "jsdiv (Num a) _ = Num 0"
| "jsdiv PosInf (Num b) = (if 0 \<le> b then PosInf else NegInf)"
| "jsdiv NegInf (Num b) = (if 0 \<le> b then NegInf else PosInf)"
| "jsdiv _ _ = NaN"

text \<open>The global \<open>isNaN\<close>, on a number.\<close>

fun isNaN :: "jsnum \<Rightarrow> bool" where
  "isNaN NaN = True"
| "isNaN _ = False"

section \<open>JavaScript strings and values\<close>

text \<open>
  A string is its sequence of UTF-16 code units.  \<open>js\<close> embeds an ASCII literal.
\<close>

type_synonym jsstring = "nat list"

definition js :: "string \<Rightarrow> jsstring" where
  "js s = map of_char s"

text \<open>
  The code units \<open>String.prototype.trim\<close> removes: ECMAScript's WhiteSpace (TAB, VT, FF,
  the space separators of Unicode, NBSP, ZWNBSP) and LineTerminator (LF, CR, LS, PS).
\<close>

definition isWhiteSpace :: "nat \<Rightarrow> bool" where
  "isWhiteSpace c =
     (c = 9 \<or> c = 10 \<or> c = 11 \<or> c = 12 \<or> c = 13 \<or> c = 32 \<or> c = 160 \<or> c = 5760
      \<or> (8192 \<le> c \<and> c \<le> 8202) \<or> c = 8232 \<or> c = 8233 \<or> c = 8239 \<or> c = 8287
      \<or> c = 12288 \<or> c = 65279)"

definition trim :: "jsstring \<Rightarrow> jsstring" where
  "trim s = rev (dropWhile isWhiteSpace (rev (dropWhile isWhiteSpace s)))"

text \<open>The class \<open>\d\<close> of a regular expression: the ASCII digits.\<close>

definition isDigit :: "nat \<Rightarrow> bool" where
  "isDigit c = (48 \<le> c \<and> c \<le> 57)"

text \<open>
  \<open>matchDigits n s\<close>: the rest of the input \<open>s\<close> is \<open>n\<close> digits and then the end of
  the input, so that \<open>matchDigits 10\<close> is the test of \<open>/^\d{10}$/\<close> (no flag: \<open>$\<close> is the
  end of the input only).
\<close>

fun matchDigits :: "nat \<Rightarrow> jsstring \<Rightarrow> bool" where
  "matchDigits 0 s = (s = [])"
| "matchDigits (Suc n) [] = False"
| "matchDigits (Suc n) (c # s) = (isDigit c \<and> matchDigits n s)"

text \<open>The values a variable of type \<open>any\<close> can hold at run time.\<close>

datatype jsval =
    JUndefined
  | JNull
  | JBool bool
  | JNum jsnum
  | JStr jsstring
  | JObj "(jsstring \<times> jsval) list"

text \<open>Truthiness, as \<open>&&\<close> and \<open>||\<close> test it.\<close>

fun truthy :: "jsval \<Rightarrow> bool" where
  "truthy JUndefined = False"
| "truthy JNull = False"
| "truthy (JBool b) = b"
| "truthy (JNum n) = (n \<noteq> Num 0 \<and> n \<noteq> NaN)"
| "truthy (JStr s) = (s \<noteq> [])"
| "truthy (JObj _) = True"

text \<open>
  Reading a property \<open>v.k\<close> of a truthy value: an object's own property, \<open>undefined\<close> when
  the object has none of that name or the value is a primitive.
\<close>

fun prop_of :: "jsval \<Rightarrow> jsstring \<Rightarrow> jsval" where
  "prop_of (JObj fs) k = (case map_of fs k of Some v \<Rightarrow> v | None \<Rightarrow> JUndefined)"
| "prop_of _ k = JUndefined"

section \<open>The submission pipeline\<close>

definition DEV_MODE :: bool where
  "DEV_MODE = False"

definition WEBHOOK_URL :: jsstring where
  "WEBHOOK_URL =
     js ''https://n8n.srv757120.hstgr.cloud/webhook-test/feb3be7f-79b2-454d-8c06-c704f69efbd0''"

definition MAX_RETRIES :: nat where
  "MAX_RETRIES = 3"

definition RETRY_DELAY :: nat where
  "RETRY_DELAY = 1000"

definition REQUEST_TIMEOUT :: nat where
  "REQUEST_TIMEOUT = 15000"

record TradeWebhookPayload =
  hsCode :: jsstring
  hsCodeDescription :: jsstring
  tradeType :: jsstring
  timestamp :: jsstring
  requestId :: jsstring

text \<open>
  What the program does to the outside world, in order: a query of the table \<open>hs_codes\<close> by
  id, a POST of a payload to a URL under a timeout, a pause of so many milliseconds.
\<close>

datatype event =
    Query jsstring
  | Post jsstring TradeWebhookPayload nat
  | Delay nat

subsection \<open>The description lookup\<close>

text \<open>
  The store answers a query with \<open>{data, error}\<close> or throws.  \<open>data\<close> is the row found (its
  column \<open>hs_code_description\<close> a text or null) or null; \<open>error\<close> is null or an error object,
  of which only the presence is read.
\<close>

record hs_code_row =
  hs_code_description :: "jsstring option"

record query_result =
  data :: "hs_code_row option"
  error :: "jsstring option"

text \<open>
  \<open>getHSCodeDescription\<close>: the result is \<open>Inl\<close> when the function throws and \<open>Inr\<close> when it
  returns; the store's answer is \<open>Inl\<close> when the awaited query throws.  The first case is
  the \<open>catch\<close> block.
\<close>

definition getHSCodeDescription ::
  "(jsstring \<Rightarrow> jsstring + query_result) \<Rightarrow> jsstring \<Rightarrow> jsstring + jsstring" where
  "getHSCodeDescription store code =
     (case store code of
        Inl exn \<Rightarrow> Inr (js ''Description not available'')
      | Inr r \<Rightarrow>
          (if error r \<noteq> None then Inr (js ''Description not available'')
           else (case data r of
                   None \<Rightarrow> Inr (js ''Description not available'')
                 | Some row \<Rightarrow>
                     (case hs_code_description row of
                        None \<Rightarrow> Inr (js ''Description not available'')
                      | Some d \<Rightarrow>
                          if d \<noteq> [] then Inr d else Inr (js ''Description not available'')))))"

subsection \<open>The dispatcher\<close>

text \<open>
  What a \<open>catch\<close> of the POST binds: whether \<open>axios.isAxiosError\<close> holds of it, its \<open>code\<close>,
  the status of its \<open>response\<close> (none when there is no response) and its \<open>message\<close>.
\<close>

record caught =
  isAxiosError :: bool
  code :: "jsstring option"
  status :: "nat option"
  message :: "jsstring option"

datatype attempt_outcome = Responded jsval | Rejected caught

text \<open>The error thrown once no attempt is left: the \<open>catch\<close> block below its retry branch.\<close>

definition terminalError :: "caught \<Rightarrow> jsstring" where
  "terminalError e =
     (if isAxiosError e \<and> code e = Some (js ''ECONNABORTED'')
        then js ''Request timed out. Please try again.''
      else if isAxiosError e \<and> code e = Some (js ''ERR_NETWORK'')
        then js ''Network error. Please check your internet connection.''
      else if isAxiosError e \<and> status e = Some 400
        then js ''Invalid request: Please check HTS code format and trade type''
      else if isAxiosError e \<and> status e = Some 401
        then js ''Unauthorized: Authentication failed''
      else if isAxiosError e \<and> status e = Some 500
        then js ''Server error: Failed to process trade data''
      else js ''Failed to process trade data: '' @
             (case message e of
                None \<Rightarrow> js ''Unknown error''
              | Some m \<Rightarrow> if m \<noteq> [] then m else js ''Unknown error''))"

definition payloadObject :: "TradeWebhookPayload \<Rightarrow> jsval" where
  "payloadObject p =
     JObj [(js ''hsCode'', JStr (hsCode p)),
           (js ''hsCodeDescription'', JStr (hsCodeDescription p)),
           (js ''tradeType'', JStr (tradeType p)),
           (js ''timestamp'', JStr (timestamp p)),
           (js ''requestId'', JStr (requestId p))]"

text \<open>
  \<open>makeRequest net payload attempt\<close>, where \<open>net k\<close> is what the endpoint does to the POST
  of attempt \<open>k\<close>.  The result is the events in order and the value returned (\<open>Inr\<close>) or
  the message of the error thrown (\<open>Inl\<close>).  Console output is left out.
\<close>

function makeRequest ::
  "(nat \<Rightarrow> attempt_outcome) \<Rightarrow> TradeWebhookPayload \<Rightarrow> nat \<Rightarrow> event list \<times> (jsstring + jsval)"
where
  "makeRequest net payload attempt =
     (if DEV_MODE then
        ([], Inr (JObj [(js ''success'', JBool True),
                        (js ''message'', JStr (js ''Webhook bypassed in development mode'')),
                        (js ''data'', payloadObject payload)]))
      else
        (case net attempt of
           Responded d \<Rightarrow> ([Post WEBHOOK_URL payload REQUEST_TIMEOUT], Inr d)
         | Rejected e \<Rightarrow>
             if attempt < MAX_RETRIES then
               (let (evs, res) = makeRequest net payload (attempt + 1)
                in (Post WEBHOOK_URL payload REQUEST_TIMEOUT # Delay (RETRY_DELAY * attempt) # evs,
                    res))
             else ([Post WEBHOOK_URL payload REQUEST_TIMEOUT], Inl (terminalError e))))"
  by pat_completeness auto
termination
  by (relation "measure (\<lambda>(net, payload, attempt). MAX_RETRIES - attempt)") auto

declare makeRequest.simps [simp del]

subsection \<open>Validation and payload construction\<close>

text \<open>
  What \<open>processTradeData\<close> reads from its surroundings: the store, the clock
  (\<open>new Date().toISOString()\<close>), the generator of identifiers (\<open>uuidv4()\<close>) and the endpoint.
\<close>

record environment =
  store :: "jsstring \<Rightarrow> jsstring + query_result"
  now :: jsstring
  uuid :: jsstring
  net :: "nat \<Rightarrow> attempt_outcome"

text \<open>
  \<open>processTradeData\<close>; its \<open>catch\<close> rethrows what it caught. The arguments are values of any
  type, as a caller not checked by the compiler can pass them.
\<close>

definition processTradeData ::
  "environment \<Rightarrow> jsval \<Rightarrow> jsval \<Rightarrow> event list \<times> (jsstring + jsval)" where
  "processTradeData env hsCodeArg tradeTypeArg =
     (case hsCodeArg of
        JStr s \<Rightarrow>
          if \<not> matchDigits 10 (trim s) then
            ([], Inl (js ''Invalid HTS code format. Must be exactly 10 digits.''))
          else
            (case tradeTypeArg of
               JStr t \<Rightarrow>
                 if t \<noteq> js ''Import'' \<and> t \<noteq> js ''Export'' then
                   ([], Inl (js ''Invalid trade type. Must be \"Import\" or \"Export\".''))
                 else
                   (case getHSCodeDescription (store env) (trim s) of
                      Inl exn \<Rightarrow> ([Query (trim s)], Inl exn)
                    | Inr description \<Rightarrow>
                        (let payload = \<lparr> hsCode = trim s,
                                         hsCodeDescription = description,
                                         tradeType = t,
                                         timestamp = now env,
                                         requestId = uuid env \<rparr>;
                             (evs, res) = makeRequest (net env) payload 1
                         in (Query (trim s) # evs, res)))
             | _ \<Rightarrow> ([], Inl (js ''Invalid trade type. Must be \"Import\" or \"Export\".'')))
      | _ \<Rightarrow> ([], Inl (js ''Invalid HTS code format. Must be exactly 10 digits.'')))"

section \<open>The aggregation pipeline\<close>

subsection \<open>The record validator\<close>

text \<open>\<open>typeof v === 'number'\<close>.\<close>

fun isNumber :: "jsval \<Rightarrow> bool" where
  "isNumber (JNum n) = True"
| "isNumber _ = False"

text \<open>
  The predicate of the \<open>filter\<close> in \<open>fetchTradeStats\<close>, on a row as the store returns it.
  \<open>&&\<close> evaluates \<open>isNaN\<close> only of a value whose \<open>typeof\<close> is \<open>'number'\<close>, so the
  coercion of another argument is never run.
\<close>

definition isValidStat :: "jsval \<Rightarrow> bool" where
  "isValidStat stat =
     (truthy stat \<and>
      isNumber (prop_of stat (js ''year_val'')) \<and>
      isNumber (prop_of stat (js ''month_val'')) \<and>
      isNumber (prop_of stat (js ''value'')) \<and>
      isNumber (prop_of stat (js ''volume'')) \<and>
      (case prop_of stat (js ''value'') of JNum v \<Rightarrow> \<not> isNaN v | _ \<Rightarrow> False) \<and>
      (case prop_of stat (js ''volume'') of JNum v \<Rightarrow> \<not> isNaN v | _ \<Rightarrow> False))"

text \<open>\<open>validData\<close>, from the \<open>data\<close> of the query (null or an array of rows).\<close>

definition validData :: "jsval list option \<Rightarrow> jsval list" where
  "validData d = filter isValidStat (case d of None \<Rightarrow> [] | Some rows \<Rightarrow> rows)"

subsection \<open>The aggregator\<close>

text \<open>
  A row of \<open>trade_stats\<close> as the aggregator reads it: a row the validator has retained, so
  that its year, month, value and volume are numbers, of which the year and the month can
  be any number (NaN, an infinity or a fraction too).  The other columns
  (\<open>value_per_volume\<close>, \<open>trade_flow\<close>, \<open>hs_code_id\<close>) are not read and live in the extension
  of the record.  The field \<open>value\<close> of the source is \<open>stat_value\<close> here, the field \<open>volume\<close>
  is \<open>stat_volume\<close>.
\<close>

record TradeStats =
  year_val :: jsnum
  month_val :: jsnum
  stat_value :: jsnum
  stat_volume :: jsnum

record ChartData =
  month :: jsstring
  total_value :: jsnum
  volume :: jsnum
  value_per_volume :: jsnum
  isLatest :: "bool option"

subsubsection \<open>The string of a number\<close>

text \<open>The decimal digits of a natural number (given as an integer), and the string of an
  integer.\<close>

function digitsOf :: "int \<Rightarrow> jsstring" where
  "digitsOf n = (if n < 10 then [48 + nat n] else digitsOf (n div 10) @ [48 + nat (n mod 10)])"
  by pat_completeness auto
termination
  by (relation "measure nat") auto

declare digitsOf.simps [simp del]

definition intString :: "int \<Rightarrow> jsstring" where
  "intString i = (if i < 0 then 45 # digitsOf (- i) else digitsOf i)"

definition pow10 :: "int \<Rightarrow> rat" where
  "pow10 k = (if 0 \<le> k then 10 ^ nat k else 1 / 10 ^ nat (- k))"

text \<open>
  \<open>decimalExponent fuel q n\<close> is the least \<open>m \<ge> n\<close> with \<open>q < 10 ^ m\<close> (in \<open>fuel\<close> steps).
  From \<open>n = -323\<close> it is the \<open>m\<close> with \<open>10 ^ (m - 1) \<le> q < 10 ^ m\<close> for every positive
  double \<open>q\<close>, the least of which is above \<open>10 ^ -324\<close> and the greatest below \<open>10 ^ 309\<close>.
\<close>

fun decimalExponent :: "nat \<Rightarrow> rat \<Rightarrow> int \<Rightarrow> int" where
  "decimalExponent 0 q n = n"
| "decimalExponent (Suc fuel) q n = (if q < pow10 n then n else decimalExponent fuel q (n + 1))"

text \<open>
  \<open>shortestDigits fuel q n k\<close>: the integers \<open>(s, n)\<close> of \<open>Number::toString\<close> for the
  positive double \<open>q\<close> with \<open>10 ^ (n - 1) \<le> q < 10 ^ n\<close>: \<open>s\<close> has as few digits as
  possible (\<open>k\<close> or more) under the condition that \<open>s * 10 ^ (n - k)\<close> rounds to \<open>q\<close>;
  of the two candidates around \<open>q\<close> the nearer one is taken, the even one on a tie.  A
  candidate \<open>10 ^ k\<close> is \<open>10 ^ (k - 1)\<close> with the next exponent.  Seventeen digits are
  enough for every double.
\<close>

fun shortestDigits :: "nat \<Rightarrow> rat \<Rightarrow> int \<Rightarrow> int \<Rightarrow> int \<times> int" where
  "shortestDigits 0 q n k = (\<lfloor>q / pow10 (n - k)\<rfloor>, n)"
| "shortestDigits (Suc fuel) q n k =
     (let e = n - k;
          lo = \<lfloor>q / pow10 e\<rfloor>;
          hi = lo + 1;
          okLo = (fl (of_int lo * pow10 e) = Num q);
          okHi = (fl (of_int hi * pow10 e) = Num q);
          dLo = q - of_int lo * pow10 e;
          dHi = of_int hi * pow10 e - q
      in if okLo \<and> (\<not> okHi \<or> dLo < dHi \<or> (dLo = dHi \<and> even lo)) then (lo, n)
         else if okHi then (if hi = 10 ^ nat k then (10 ^ (nat k - 1), n + 1) else (hi, n))
         else shortestDigits fuel q n (k + 1))"

text \<open>
  The string for the digits of \<open>s\<close> (there are \<open>k\<close>) and the exponent \<open>n\<close>: the digits and
  zeros, the digits around a point, or the exponent form, by the place of \<open>n\<close>.
\<close>

definition formatDecimal :: "int \<Rightarrow> int \<Rightarrow> jsstring" where
  "formatDecimal s n =
     (let ds = digitsOf s; k = int (length ds)
      in if k \<le> n \<and> n \<le> 21 then ds @ replicate (nat (n - k)) 48
         else if 0 < n \<and> n \<le> 21 then take (nat n) ds @ 46 # drop (nat n) ds
         else if - 6 < n \<and> n \<le> 0 then 48 # 46 # replicate (nat (- n)) 48 @ ds
         else (let e = n - 1;
                   es = (if e < 0 then 45 else 43) # digitsOf \<bar>e\<bar>
               in if k = 1 then ds @ 101 # es else hd ds # 46 # tl ds @ 101 # es))"

definition positiveString :: "rat \<Rightarrow> jsstring" where
  "positiveString q =
     (let (s, n) = shortestDigits 17 q (decimalExponent 640 q (- 323)) 1 in formatDecimal s n)"

text \<open>
  \<open>Number::toString\<close>, which the template literal and \<open>String\<close> apply to a number.
\<close>

fun numberToString :: "jsnum \<Rightarrow> jsstring" where
  "numberToString NaN = js ''NaN''"
| "numberToString PosInf = js ''Infinity''"
| "numberToString NegInf = js ''-Infinity''"
| "numberToString (Num q) =
     (if q = 0 then js ''0''
      else if q < 0 then 45 # positiveString (- q)
      else positiveString q)"

text \<open>\<open>s.padStart(n, c)\<close> for a filler \<open>c\<close> of one code unit.\<close>

definition padStart :: "nat \<Rightarrow> nat \<Rightarrow> jsstring \<Rightarrow> jsstring" where
  "padStart n c s = replicate (n - length s) c @ s"

definition monthKey :: "'a TradeStats_scheme \<Rightarrow> jsstring" where
  "monthKey stat =
     numberToString (year_val stat) @ js ''-'' @ padStart 2 48 (numberToString (month_val stat))"

text \<open>
  A \<open>Map\<close> is the list of its entries in insertion order: \<open>get\<close> is \<open>map_of\<close>, \<open>set\<close>
  replaces the value of a key where it stands and appends a new key, \<open>values()\<close> is the
  second components in order.
\<close>

fun map_set :: "('k \<times> 'v) list \<Rightarrow> 'k \<Rightarrow> 'v \<Rightarrow> ('k \<times> 'v) list" where
  "map_set [] k v = [(k, v)]"
| "map_set ((k', v') # m) k v = (if k' = k then (k, v) # m else (k', v') # map_set m k v)"

text \<open>The body of the \<open>forEach\<close>.\<close>

definition addStat ::
  "(jsstring \<times> ChartData) list \<Rightarrow> 'a TradeStats_scheme \<Rightarrow> (jsstring \<times> ChartData) list" where
  "addStat monthlyData stat =
     (let key = monthKey stat;
          currentData =
            (case map_of monthlyData key of
               Some d \<Rightarrow> d
             | None \<Rightarrow> \<lparr> month = key, total_value = Num 0, volume = Num 0,
                         value_per_volume = Num 0, isLatest = None \<rparr>);
          c1 = currentData \<lparr> total_value := jsadd (total_value currentData) (stat_value stat) \<rparr>;
          c2 = c1 \<lparr> volume := jsadd (volume c1) (stat_volume stat) \<rparr>;
          c3 = c2 \<lparr> value_per_volume := jsdiv (total_value c2) (volume c2) \<rparr>
      in map_set monthlyData key c3)"

text \<open>
  The order of \<open>a.localeCompare(b)\<close> on the strings that are keys, which are made of the
  digits, \<open>-\<close>, \<open>.\<close>, \<open>+\<close> and the letters of \<open>e\<close>, \<open>NaN\<close> and \<open>Infinity\<close>.  The collation compares
  the strings by the primary weights of their characters first: \<open>-\<close>, then \<open>.\<close>, then
  \<open>+\<close>, then the digits, then the letters in alphabetical order whatever their case; and
  by the case (lower before upper) when the primary weights are equal.  A code unit that
  no key contains is put after the letters, by its code.
\<close>

definition primaryWeight :: "nat \<Rightarrow> nat" where
  "primaryWeight c =
     (if c = 45 then 0 else if c = 46 then 1 else if c = 43 then 2
      else if 48 \<le> c \<and> c \<le> 57 then c - 45
      else if 97 \<le> c \<and> c \<le> 122 then c - 84
      else if 65 \<le> c \<and> c \<le> 90 then c - 52
      else c + 39)"

definition tertiaryWeight :: "nat \<Rightarrow> nat" where
  "tertiaryWeight c = (if 65 \<le> c \<and> c \<le> 90 then 1 else 0)"

definition collationKey :: "jsstring \<Rightarrow> nat list \<times> nat list" where
  "collationKey s = (map primaryWeight s, map tertiaryWeight s)"

text \<open>
  \<open>chartData\<close>.  The comparison \<open>a.month.localeCompare(b.month)\<close> is that of the collation
  keys; \<open>sort\<close> is stable, as \<open>Array.prototype.sort\<close> is.
\<close>

definition chartData :: "'a TradeStats_scheme list \<Rightarrow> ChartData list" where
  "chartData tradeStats =
     (if length tradeStats = 0 then []
      else
        (let monthlyData = foldl addStat [] tradeStats;
             sortedData = sort_key (\<lambda>d. collationKey (month d))
                            (map (\<lambda>d. d \<lparr> isLatest := Some False \<rparr>) (map snd monthlyData))
         in if length sortedData > 0 then
              sortedData [length sortedData - 1 :=
                            (sortedData ! (length sortedData - 1)) \<lparr> isLatest := Some True \<rparr>]
            else sortedData))"

section \<open>Example inputs\<close>

text \<open>
  Failures as axios reports them: a response of status 400, 401 or 500; an endpoint that
  rejects the first attempt with one failure and every later attempt with another; a store
  that finds a row, one that finds none, and an environment whose store throws.
\<close>

definition err400 :: caught where
  "err400 = \<lparr> isAxiosError = True, code = Some (js ''ERR_BAD_REQUEST''), status = Some 400,
              message = Some (js ''Request failed with status code 400'') \<rparr>"

definition err401 :: caught where
  "err401 = \<lparr> isAxiosError = True, code = Some (js ''ERR_BAD_REQUEST''), status = Some 401,
              message = Some (js ''Request failed with status code 401'') \<rparr>"

definition err500 :: caught where
  "err500 = \<lparr> isAxiosError = True, code = Some (js ''ERR_BAD_RESPONSE''), status = Some 500,
              message = Some (js ''Request failed with status code 500'') \<rparr>"

definition rejecting :: "caught \<Rightarrow> caught \<Rightarrow> nat \<Rightarrow> attempt_outcome" where
  "rejecting e1 e k = (if k = 1 then Rejected e1 else Rejected e)"

definition examplePayload :: TradeWebhookPayload where
  "examplePayload = \<lparr> hsCode = js ''1234567890'', hsCodeDescription = js ''Description not available'',
          tradeType = js ''Import'', timestamp = js ''2025-03-25T00:00:00.000Z'',
          requestId = js ''3f2b8c1e-0000-4000-8000-000000000001'' \<rparr>"

definition exampleEnv :: "caught \<Rightarrow> environment" where
  "exampleEnv e = \<lparr> store = (\<lambda>c. Inl (js ''fetch failed'')), now = js ''2025-03-25T00:00:00.000Z'',
       uuid = js ''3f2b8c1e-0000-4000-8000-000000000001'', net = rejecting e e \<rparr>"

definition foundStore :: "jsstring \<Rightarrow> jsstring + query_result" where
  "foundStore c = Inr \<lparr> data = Some \<lparr> hs_code_description = Some (js ''Live horses'') \<rparr>, error = None \<rparr>"

definition emptyStore :: "jsstring \<Rightarrow> jsstring + query_result" where
  "emptyStore c = Inr \<lparr> data = None, error = Some (js ''PGRST116'') \<rparr>"

text \<open>A row of \<open>trade_stats\<close> as the store returns it, and one as the aggregator reads it.\<close>

definition statRow :: "jsnum \<Rightarrow> jsnum \<Rightarrow> jsnum \<Rightarrow> jsnum \<Rightarrow> jsval" where
  "statRow y m v w =
     JObj [(js ''year_val'', JNum y), (js ''month_val'', JNum m),
           (js ''value'', JNum v), (js ''volume'', JNum w),
           (js ''trade_flow'', JStr (js ''Import'')), (js ''hs_code_id'', JStr (js ''1234567890''))]"

definition obs :: "int \<Rightarrow> int \<Rightarrow> rat \<Rightarrow> rat \<Rightarrow> TradeStats" where
  "obs y m v w =
     \<lparr> year_val = Num (of_int y), month_val = Num (of_int m), stat_value = Num v,
       stat_volume = Num w \<rparr>"

section \<open>Notions used in the proofs\<close>

text \<open>
  The sum of a list of numbers as the \<open>forEach\<close> accumulates it: from \<open>0\<close>, left to
  right, each addition rounded.
\<close>

definition sumJs :: "jsnum list \<Rightarrow> jsnum" where
  "sumJs vs = foldl jsadd (Num 0) vs"

text \<open>
  The entry of the \<open>Map\<close> for the key \<open>k\<close> once the rows \<open>xs\<close> have been added: the sums
  of the rows of that key in their order, and the quotient of the sums.
\<close>

definition groupOf :: "jsstring \<Rightarrow> 'a TradeStats_scheme list \<Rightarrow> ChartData" where
  "groupOf k xs =
     (let g = filter (\<lambda>s. monthKey s = k) xs;
          tv = sumJs (map stat_value g);
          vol = sumJs (map stat_volume g)
      in \<lparr> month = k, total_value = tv, volume = vol, value_per_volume = jsdiv tv vol,
           isLatest = None \<rparr>)"

text \<open>The last step of \<open>chartData\<close>: the flag of the last element is set.\<close>

definition markLatest :: "ChartData list \<Rightarrow> ChartData list" where
  "markLatest ds =
     (if length ds > 0 then ds [length ds - 1 := (ds ! (length ds - 1)) \<lparr> isLatest := Some True \<rparr>]
      else ds)"

text \<open>The number a string of decimal digits denotes.\<close>

fun digitsValue :: "jsstring \<Rightarrow> nat" where
  "digitsValue [] = 0"
| "digitsValue (c # ds) = (c - 48) * 10 ^ length ds + digitsValue ds"

text \<open>
  A number is a count when it is a natural number; \<open>countOf\<close> is that natural number.
\<close>

definition countOf :: "jsnum \<Rightarrow> nat" where
  "countOf v = (case v of Num q \<Rightarrow> nat \<lfloor>q\<rfloor> | _ \<Rightarrow> 0)"

definition isCount :: "jsnum \<Rightarrow> bool" where
  "isCount v \<longleftrightarrow> v = Num (of_nat (countOf v))"

text \<open>
  The integer a number is, and the numbers \<open>Number.isSafeInteger\<close> accepts: the integers
  of magnitude at most \<open>2 ^ 53 - 1\<close>.
\<close>

definition intOf :: "jsnum \<Rightarrow> int" where
  "intOf v = (case v of Num q \<Rightarrow> \<lfloor>q\<rfloor> | _ \<Rightarrow> 0)"

definition isSafeInteger :: "jsnum \<Rightarrow> bool" where
  "isSafeInteger v = (case v of Num q \<Rightarrow> q = of_int \<lfloor>q\<rfloor> \<and> \<bar>q\<bar> \<le> 2 ^ 53 - 1 | _ \<Rightarrow> False)"

text \<open>The keys of the rows, each once, in the order of the collation.\<close>

definition sortedKeys :: "'a TradeStats_scheme list \<Rightarrow> jsstring list" where
  "sortedKeys xs = sort_key collationKey (remdups (map monthKey xs))"

section \<open>Properties of the submission pipeline\<close>

subsection \<open>Strings\<close>

lemma js_eq_iff: "js a = js b \<longleftrightarrow> a = b"
  unfolding js_def by (rule inj_map_eq_map) (rule inj_onI, simp add: of_char_eq_iff)
lemma js_Nil [simp]: "js [] = []" by (simp add: js_def)
lemma js_eq_Nil [simp]: "js s = [] \<longleftrightarrow> s = []" by (simp add: js_def)

lemma matchDigits_iff: "matchDigits n s \<longleftrightarrow> length s = n \<and> (\<forall>c \<in> set s. isDigit c)"
  by (induction n s rule: matchDigits.induct) auto

lemma trim_example: "trim (js ''1234567890'') = js ''1234567890''"
  by (simp add: trim_def js_def isWhiteSpace_def)

lemma trim_example_spaces: "trim (js '' 1234567890  '') = js ''1234567890''"
  by (simp add: trim_def js_def isWhiteSpace_def)

lemma matchDigits_example: "matchDigits 10 (js ''1234567890'')"
  by (simp add: matchDigits_iff js_def isDigit_def)

lemma messages_differ:
  "js ''Invalid HTS code format. Must be exactly 10 digits.'' \<noteq>
   js ''Invalid trade type. Must be \"Import\" or \"Export\".''"
  by (simp add: js_def)

subsection \<open>The description lookup\<close>

lemma getHSCodeDescription_returns: "\<exists>d. getHSCodeDescription st c = Inr d"
  by (auto simp: getHSCodeDescription_def split: sum.splits option.splits)

text \<open>
  Claim C9.  For every code and every behaviour of the store, the description lookup
  returns and never throws.  When the store finds a row whose description is a non-empty
  text, it returns that text; when the description of the row is null or empty, when the
  store finds no row, when the store reports an error and when the query throws, it
  returns the placeholder "Description not available".
\<close>

theorem getHSCodeDescription_never_throws:
  "(\<exists>d. getHSCodeDescription st c = Inr d) \<and>
   (st c = Inr r \<and> error r = None \<and> data r = Some row \<and> hs_code_description row = Some d \<and> d \<noteq> []
      \<longrightarrow> getHSCodeDescription st c = Inr d) \<and>
   (st c = Inr r \<and> error r = None \<and> data r = Some row \<and>
      (hs_code_description row = None \<or> hs_code_description row = Some [])
      \<longrightarrow> getHSCodeDescription st c = Inr (js ''Description not available'')) \<and>
   (st c = Inr r \<and> error r = None \<and> data r = None
      \<longrightarrow> getHSCodeDescription st c = Inr (js ''Description not available'')) \<and>
   (st c = Inr r \<and> error r \<noteq> None
      \<longrightarrow> getHSCodeDescription st c = Inr (js ''Description not available'')) \<and>
   (st c = Inl x
      \<longrightarrow> getHSCodeDescription st c = Inr (js ''Description not available''))"
  by (auto simp: getHSCodeDescription_def split: sum.splits option.splits)

theorem getHSCodeDescription_never_throws_witness:
  "getHSCodeDescription foundStore (js ''0101210000'') = Inr (js ''Live horses'') \<and>
   getHSCodeDescription emptyStore (js ''0101210000'') = Inr (js ''Description not available'') \<and>
   getHSCodeDescription (\<lambda>c. Inl (js ''fetch failed'')) (js ''0101210000'') =
     Inr (js ''Description not available'')"
  using getHSCodeDescription_never_throws[of foundStore "js ''0101210000''"
          "\<lparr> data = Some \<lparr> hs_code_description = Some (js ''Live horses'') \<rparr>, error = None \<rparr>"
          "\<lparr> hs_code_description = Some (js ''Live horses'') \<rparr>" "js ''Live horses''" "[]"]
        getHSCodeDescription_never_throws[of emptyStore "js ''0101210000''"
          "\<lparr> data = None, error = Some (js ''PGRST116'') \<rparr>" "\<lparr> hs_code_description = None \<rparr>" "[]" "[]"]
        getHSCodeDescription_never_throws[of "\<lambda>c. Inl (js ''fetch failed'')" "js ''0101210000''"
          "\<lparr> data = None, error = None \<rparr>" "\<lparr> hs_code_description = None \<rparr>" "[]" "js ''fetch failed''"]
  by (simp add: foundStore_def emptyStore_def)

subsection \<open>The dispatcher\<close>

lemma makeRequest_retry:
  "attempt < MAX_RETRIES \<Longrightarrow> nw attempt = Rejected e \<Longrightarrow>
   makeRequest nw p attempt =
     (Post WEBHOOK_URL p REQUEST_TIMEOUT # Delay (RETRY_DELAY * attempt) # fst (makeRequest nw p (attempt + 1)),
      snd (makeRequest nw p (attempt + 1)))"
  by (subst makeRequest.simps) (simp add: DEV_MODE_def split: prod.splits)

lemma makeRequest_last:
  "\<not> attempt < MAX_RETRIES \<Longrightarrow> nw attempt = Rejected e \<Longrightarrow>
   makeRequest nw p attempt = ([Post WEBHOOK_URL p REQUEST_TIMEOUT], Inl (terminalError e))"
  by (subst makeRequest.simps) (simp add: DEV_MODE_def)

lemma makeRequest_ok:
  "nw attempt = Responded d \<Longrightarrow>
   makeRequest nw p attempt = ([Post WEBHOOK_URL p REQUEST_TIMEOUT], Inr d)"
  by (subst makeRequest.simps) (simp add: DEV_MODE_def)

lemma makeRequest_cong_net:
  "(\<And>k. attempt \<le> k \<Longrightarrow> nw' k = nw k) \<Longrightarrow> makeRequest nw' p attempt = makeRequest nw p attempt"
proof (induction nw p attempt rule: makeRequest.induct)
  case (1 nw payload attempt)
  show ?case
  proof (cases "nw attempt")
    case (Responded d)
    then show ?thesis using 1(2)[of attempt] by (simp add: makeRequest_ok)
  next
    case (Rejected e)
    show ?thesis
    proof (cases "attempt < MAX_RETRIES")
      case True
      have "makeRequest nw' payload (attempt + 1) = makeRequest nw payload (attempt + 1)"
        using 1(1)[OF _ Rejected True] 1(2) by (simp add: DEV_MODE_def)
      then show ?thesis using Rejected True 1(2)[of attempt] by (simp add: makeRequest_retry)
    next
      case False
      then show ?thesis using Rejected 1(2)[of attempt] by (simp add: makeRequest_last)
    qed
  qed
qed

lemma makeRequest_first:
  "nw (Suc 0) = Rejected e \<Longrightarrow>
   makeRequest nw p (Suc 0) =
     (Post WEBHOOK_URL p REQUEST_TIMEOUT # Delay 1000 # fst (makeRequest nw p 2),
      snd (makeRequest nw p 2))"
  using makeRequest_retry[of "Suc 0" nw e p]
  by (simp add: MAX_RETRIES_def RETRY_DELAY_def numeral_2_eq_2)

lemma makeRequest_second:
  "nw 2 = Rejected e \<Longrightarrow>
   makeRequest nw p 2 =
     (Post WEBHOOK_URL p REQUEST_TIMEOUT # Delay 2000 # fst (makeRequest nw p 3),
      snd (makeRequest nw p 3))"
  using makeRequest_retry[of 2 nw e p] by (simp add: MAX_RETRIES_def RETRY_DELAY_def)

lemma makeRequest_third:
  "nw 3 = Rejected e \<Longrightarrow>
   makeRequest nw p 3 = ([Post WEBHOOK_URL p REQUEST_TIMEOUT], Inl (terminalError e))"
  using makeRequest_last[of 3 nw e p] by (simp add: MAX_RETRIES_def)

text \<open>
  Claim C4.  For every submission (the first call is attempt 1) and every behaviour of the
  endpoint, the dispatcher makes one, two or three attempts and no more; it pauses 1000 ms
  before attempt 2 and 2000 ms before attempt 3, that is 1000 * (k - 1) ms before attempt k;
  and every attempt posts the same payload, request identifier included.
\<close>

theorem makeRequest_attempts:
  "fst (makeRequest nw p 1) = [Post WEBHOOK_URL p REQUEST_TIMEOUT] \<or>
   fst (makeRequest nw p 1) =
     [Post WEBHOOK_URL p REQUEST_TIMEOUT, Delay 1000, Post WEBHOOK_URL p REQUEST_TIMEOUT] \<or>
   fst (makeRequest nw p 1) =
     [Post WEBHOOK_URL p REQUEST_TIMEOUT, Delay 1000, Post WEBHOOK_URL p REQUEST_TIMEOUT,
      Delay 2000, Post WEBHOOK_URL p REQUEST_TIMEOUT]"
proof -
  have three: "fst (makeRequest nw p 3) = [Post WEBHOOK_URL p REQUEST_TIMEOUT]"
    by (cases "nw 3") (simp_all add: makeRequest_ok makeRequest_third)
  have two: "fst (makeRequest nw p 2) = [Post WEBHOOK_URL p REQUEST_TIMEOUT] \<or>
     fst (makeRequest nw p 2) =
       [Post WEBHOOK_URL p REQUEST_TIMEOUT, Delay 2000, Post WEBHOOK_URL p REQUEST_TIMEOUT]"
    using three by (cases "nw 2") (simp_all add: makeRequest_ok makeRequest_second)
  show ?thesis
    using two by (cases "nw 1") (auto simp add: makeRequest_ok makeRequest_first)
qed

theorem makeRequest_attempts_witness:
  "fst (makeRequest (rejecting err500 err500) examplePayload 1) =
     [Post WEBHOOK_URL examplePayload REQUEST_TIMEOUT, Delay 1000,
      Post WEBHOOK_URL examplePayload REQUEST_TIMEOUT, Delay 2000,
      Post WEBHOOK_URL examplePayload REQUEST_TIMEOUT]"
  using makeRequest_attempts[of "rejecting err500 err500" examplePayload]
  by (simp add: makeRequest_first[of "rejecting err500 err500"]
        makeRequest_second[of "rejecting err500 err500"]
        makeRequest_third[of "rejecting err500 err500"] rejecting_def)

text \<open>
  Claim C3.  A failed attempt whose number is below the maximum of 3 is followed by the
  pause and the next attempt whatever the failure is: the result is that of the next
  attempt, after the POST and the pause, and it is the same for any two failures of that
  attempt (a response of status 400 or 401 included) when the later attempts go the same
  way.  When all three attempts fail, the error thrown is the classification of the third
  failure alone.
\<close>

theorem makeRequest_retries_every_failure:
  "(attempt < MAX_RETRIES \<and> nw attempt = Rejected e \<longrightarrow>
      makeRequest nw p attempt =
        (Post WEBHOOK_URL p REQUEST_TIMEOUT # Delay (RETRY_DELAY * attempt) #
           fst (makeRequest nw p (attempt + 1)),
         snd (makeRequest nw p (attempt + 1)))) \<and>
   (attempt < MAX_RETRIES \<and> nw attempt = Rejected e \<and> nw' attempt = Rejected e' \<and>
    (\<forall>k. attempt < k \<longrightarrow> nw' k = nw k) \<longrightarrow>
      makeRequest nw' p attempt = makeRequest nw p attempt) \<and>
   (nw 1 = Rejected e1 \<and> nw 2 = Rejected e2 \<and> nw 3 = Rejected e3 \<longrightarrow>
      snd (makeRequest nw p 1) = Inl (terminalError e3))"
proof (intro conjI impI)
  assume "attempt < MAX_RETRIES \<and> nw attempt = Rejected e"
  then show "makeRequest nw p attempt =
        (Post WEBHOOK_URL p REQUEST_TIMEOUT # Delay (RETRY_DELAY * attempt) #
           fst (makeRequest nw p (attempt + 1)),
         snd (makeRequest nw p (attempt + 1)))"
    by (simp add: makeRequest_retry)
next
  assume a: "attempt < MAX_RETRIES \<and> nw attempt = Rejected e \<and> nw' attempt = Rejected e' \<and>
    (\<forall>k. attempt < k \<longrightarrow> nw' k = nw k)"
  then have "makeRequest nw' p (attempt + 1) = makeRequest nw p (attempt + 1)"
    by (intro makeRequest_cong_net) simp
  with a show "makeRequest nw' p attempt = makeRequest nw p attempt"
    by (simp add: makeRequest_retry)
next
  assume "nw 1 = Rejected e1 \<and> nw 2 = Rejected e2 \<and> nw 3 = Rejected e3"
  then show "snd (makeRequest nw p 1) = Inl (terminalError e3)"
    by (simp add: makeRequest_first makeRequest_second makeRequest_third)
qed

theorem makeRequest_retries_every_failure_witness:
  "makeRequest (rejecting err401 err400) examplePayload 1 =
     makeRequest (rejecting err400 err400) examplePayload 1 \<and>
   snd (makeRequest (rejecting err400 err400) examplePayload 1) =
     Inl (js ''Invalid request: Please check HTS code format and trade type'')"
proof -
  have h: "1 < MAX_RETRIES"
    "rejecting err400 err400 1 = Rejected err400"
    "rejecting err401 err400 1 = Rejected err401"
    "\<forall>k. 1 < k \<longrightarrow> rejecting err401 err400 k = rejecting err400 err400 k"
    "rejecting err400 err400 2 = Rejected err400"
    "rejecting err400 err400 3 = Rejected err400"
    by (simp_all add: rejecting_def MAX_RETRIES_def)
  have t: "terminalError err400 =
      js ''Invalid request: Please check HTS code format and trade type''"
    by (simp add: terminalError_def err400_def js_eq_iff)
  from makeRequest_retries_every_failure[of 1 "rejecting err400 err400" err400 examplePayload
          "rejecting err401 err400" err401 err400 err400 err400] h
  have "makeRequest (rejecting err401 err400) examplePayload 1 =
     makeRequest (rejecting err400 err400) examplePayload 1 \<and>
   snd (makeRequest (rejecting err400 err400) examplePayload 1) = Inl (terminalError err400)"
    by blast
  then show ?thesis by (simp only: t)
qed

subsection \<open>Validation and the terminal failure\<close>

lemma processTradeData_valid:
  assumes "matchDigits 10 (trim s)" and "t = js ''Import'' \<or> t = js ''Export''"
  shows "\<exists>d. getHSCodeDescription (store env) (trim s) = Inr d \<and>
             processTradeData env (JStr s) (JStr t) =
               (Query (trim s) #
                  fst (makeRequest (net env)
                        \<lparr> hsCode = trim s, hsCodeDescription = d, tradeType = t,
                          timestamp = now env, requestId = uuid env \<rparr> 1),
                snd (makeRequest (net env)
                        \<lparr> hsCode = trim s, hsCodeDescription = d, tradeType = t,
                          timestamp = now env, requestId = uuid env \<rparr> 1))"
proof -
  obtain d where d: "getHSCodeDescription (store env) (trim s) = Inr d"
    using getHSCodeDescription_returns by blast
  show ?thesis
    using assms d by (auto simp: processTradeData_def Let_def split: prod.splits)
qed

text \<open>
  Claim C7.  When no attempt is left, the dispatcher throws the classification of the
  failure of that attempt: a timeout abort (axios code ECONNABORTED) gives "Request timed
  out. Please try again."; an unreachable network (axios code ERR_NETWORK) gives "Network
  error. Please check your internet connection."; a response of status 400 gives "Invalid
  request: Please check HTS code format and trade type", of status 401 "Unauthorized:
  Authentication failed", of status 500 "Server error: Failed to process trade data"; any
  other failure gives "Failed to process trade data: " followed by the message of the
  failure ("Unknown error" when it has none).  A failure that carries a response has
  neither of the two codes.  Submitting the code "1234567890" with direction "Import" when
  all three attempts are answered with status 500 throws "Server error: Failed to process
  trade data".
\<close>

theorem terminalError_classification:
  "(nw MAX_RETRIES = Rejected e \<longrightarrow>
      makeRequest nw p MAX_RETRIES = ([Post WEBHOOK_URL p REQUEST_TIMEOUT], Inl (terminalError e))) \<and>
   (isAxiosError e \<and> code e = Some (js ''ECONNABORTED'') \<longrightarrow>
      terminalError e = js ''Request timed out. Please try again.'') \<and>
   (isAxiosError e \<and> code e = Some (js ''ERR_NETWORK'') \<longrightarrow>
      terminalError e = js ''Network error. Please check your internet connection.'') \<and>
   (isAxiosError e \<and> code e \<noteq> Some (js ''ECONNABORTED'') \<and> code e \<noteq> Some (js ''ERR_NETWORK'') \<and>
    status e = Some 400 \<longrightarrow>
      terminalError e = js ''Invalid request: Please check HTS code format and trade type'') \<and>
   (isAxiosError e \<and> code e \<noteq> Some (js ''ECONNABORTED'') \<and> code e \<noteq> Some (js ''ERR_NETWORK'') \<and>
    status e = Some 401 \<longrightarrow>
      terminalError e = js ''Unauthorized: Authentication failed'') \<and>
   (isAxiosError e \<and> code e \<noteq> Some (js ''ECONNABORTED'') \<and> code e \<noteq> Some (js ''ERR_NETWORK'') \<and>
    status e = Some 500 \<longrightarrow>
      terminalError e = js ''Server error: Failed to process trade data'') \<and>
   ((\<not> isAxiosError e \<or>
     (code e \<noteq> Some (js ''ECONNABORTED'') \<and> code e \<noteq> Some (js ''ERR_NETWORK'') \<and>
      status e \<noteq> Some 400 \<and> status e \<noteq> Some 401 \<and> status e \<noteq> Some 500)) \<longrightarrow>
      terminalError e =
        js ''Failed to process trade data: '' @
          (case message e of None \<Rightarrow> js ''Unknown error''
           | Some m \<Rightarrow> if m \<noteq> [] then m else js ''Unknown error'')) \<and>
   (net env 1 = Rejected e1 \<and> net env 2 = Rejected e2 \<and> net env 3 = Rejected e \<and>
    isAxiosError e \<and> code e \<noteq> Some (js ''ECONNABORTED'') \<and> code e \<noteq> Some (js ''ERR_NETWORK'') \<and>
    status e = Some 500 \<longrightarrow>
      snd (processTradeData env (JStr (js ''1234567890'')) (JStr (js ''Import''))) =
        Inl (js ''Server error: Failed to process trade data''))"
proof (intro conjI impI)
  assume "nw MAX_RETRIES = Rejected e"
  then show "makeRequest nw p MAX_RETRIES =
      ([Post WEBHOOK_URL p REQUEST_TIMEOUT], Inl (terminalError e))"
    by (simp add: makeRequest_last)
next
  assume a: "net env 1 = Rejected e1 \<and> net env 2 = Rejected e2 \<and> net env 3 = Rejected e \<and>
    isAxiosError e \<and> code e \<noteq> Some (js ''ECONNABORTED'') \<and> code e \<noteq> Some (js ''ERR_NETWORK'') \<and>
    status e = Some 500"
  obtain d where "processTradeData env (JStr (js ''1234567890'')) (JStr (js ''Import'')) =
      (Query (js ''1234567890'') #
         fst (makeRequest (net env)
               \<lparr> hsCode = js ''1234567890'', hsCodeDescription = d, tradeType = js ''Import'',
                 timestamp = now env, requestId = uuid env \<rparr> 1),
       snd (makeRequest (net env)
               \<lparr> hsCode = js ''1234567890'', hsCodeDescription = d, tradeType = js ''Import'',
                 timestamp = now env, requestId = uuid env \<rparr> 1))"
    using processTradeData_valid[of "js ''1234567890''" "js ''Import''" env]
    by (auto simp: trim_example matchDigits_example)
  with a show "snd (processTradeData env (JStr (js ''1234567890'')) (JStr (js ''Import''))) =
        Inl (js ''Server error: Failed to process trade data'')"
    by (simp add: makeRequest_first makeRequest_second makeRequest_third terminalError_def)
qed (auto simp: terminalError_def js_eq_iff)

theorem terminalError_classification_witness:
  "snd (processTradeData (exampleEnv err500) (JStr (js ''1234567890'')) (JStr (js ''Import''))) =
     Inl (js ''Server error: Failed to process trade data'') \<and>
   makeRequest (rejecting err400 err401) examplePayload MAX_RETRIES =
     ([Post WEBHOOK_URL examplePayload REQUEST_TIMEOUT], Inl (js ''Unauthorized: Authentication failed''))"
  using terminalError_classification[of "rejecting err400 err401" err401 examplePayload "exampleEnv err500" err500 err500]
    terminalError_classification[of "rejecting err500 err500" err500 examplePayload "exampleEnv err500" err500 err500]
  by (simp add: exampleEnv_def rejecting_def err500_def err401_def MAX_RETRIES_def js_eq_iff)

text \<open>
  Claim C8.  The validator throws "Invalid HTS code format. Must be exactly 10 digits."
  exactly when the code is not a string that, once trimmed, is ten decimal digits.  A
  code that passes with a direction other than the strings "Import" and "Export" throws
  "Invalid trade type".  Only when both checks pass does the program query the store and
  build the payload, whose code is the trimmed string, and hand it to the dispatcher.
\<close>

theorem processTradeData_validation:
  "(processTradeData env c t = ([], Inl (js ''Invalid HTS code format. Must be exactly 10 digits.''))
      \<longleftrightarrow> \<not> (\<exists>s. c = JStr s \<and> length (trim s) = 10 \<and> (\<forall>x \<in> set (trim s). 48 \<le> x \<and> x \<le> 57))) \<and>
   ((\<exists>s. c = JStr s \<and> length (trim s) = 10 \<and> (\<forall>x \<in> set (trim s). 48 \<le> x \<and> x \<le> 57)) \<and>
    t \<noteq> JStr (js ''Import'') \<and> t \<noteq> JStr (js ''Export'') \<longrightarrow>
      processTradeData env c t = ([], Inl (js ''Invalid trade type. Must be \"Import\" or \"Export\".''))) \<and>
   (c = JStr s \<and> length (trim s) = 10 \<and> (\<forall>x \<in> set (trim s). 48 \<le> x \<and> x \<le> 57) \<and>
    (t = JStr (js ''Import'') \<or> t = JStr (js ''Export'')) \<longrightarrow>
      (\<exists>d tt. t = JStr tt \<and> getHSCodeDescription (store env) (trim s) = Inr d \<and>
         processTradeData env c t =
           (Query (trim s) #
              fst (makeRequest (net env)
                    \<lparr> hsCode = trim s, hsCodeDescription = d, tradeType = tt,
                      timestamp = now env, requestId = uuid env \<rparr> 1),
            snd (makeRequest (net env)
                    \<lparr> hsCode = trim s, hsCodeDescription = d, tradeType = tt,
                      timestamp = now env, requestId = uuid env \<rparr> 1))))"
proof (intro conjI impI)
  show "(processTradeData env c t = ([], Inl (js ''Invalid HTS code format. Must be exactly 10 digits.'')))
      \<longleftrightarrow> (\<not> (\<exists>s. c = JStr s \<and> length (trim s) = 10 \<and> (\<forall>x \<in> set (trim s). 48 \<le> x \<and> x \<le> 57)))"
  proof (cases c)
    case (JStr s)
    show ?thesis
    proof (cases "matchDigits 10 (trim s)")
      case True
      then have ok: "length (trim s) = 10 \<and> (\<forall>x \<in> set (trim s). 48 \<le> x \<and> x \<le> 57)"
        by (simp add: matchDigits_iff isDigit_def)
      have "processTradeData env c t \<noteq> ([], Inl (js ''Invalid HTS code format. Must be exactly 10 digits.''))"
        using True JStr messages_differ getHSCodeDescription_returns[of "store env" "trim s"]
        by (auto simp: processTradeData_def Let_def split: jsval.splits prod.splits sum.splits)
      with ok JStr show ?thesis by auto
    next
      case False
      then have "\<not> (length (trim s) = 10 \<and> (\<forall>x \<in> set (trim s). 48 \<le> x \<and> x \<le> 57))"
        by (simp add: matchDigits_iff isDigit_def)
      with False JStr show ?thesis by (auto simp: processTradeData_def)
    qed
  qed (simp_all add: processTradeData_def)
next
  assume a: "(\<exists>s. c = JStr s \<and> length (trim s) = 10 \<and> (\<forall>x \<in> set (trim s). 48 \<le> x \<and> x \<le> 57)) \<and>
    t \<noteq> JStr (js ''Import'') \<and> t \<noteq> JStr (js ''Export'')"
  then obtain s where s: "c = JStr s" "matchDigits 10 (trim s)"
    by (auto simp: matchDigits_iff isDigit_def)
  with a show "processTradeData env c t = ([], Inl (js ''Invalid trade type. Must be \"Import\" or \"Export\".''))"
    by (auto simp: processTradeData_def split: jsval.splits)
next
  assume a: "c = JStr s \<and> length (trim s) = 10 \<and> (\<forall>x \<in> set (trim s). 48 \<le> x \<and> x \<le> 57) \<and>
    (t = JStr (js ''Import'') \<or> t = JStr (js ''Export''))"
  then obtain tt where tt: "t = JStr tt" "tt = js ''Import'' \<or> tt = js ''Export''" by auto
  from a have m: "matchDigits 10 (trim s)" by (simp add: matchDigits_iff isDigit_def)
  from processTradeData_valid[OF m tt(2), of env] a tt(1)
  show "\<exists>d tt. t = JStr tt \<and> getHSCodeDescription (store env) (trim s) = Inr d \<and>
         processTradeData env c t =
           (Query (trim s) #
              fst (makeRequest (net env)
                    \<lparr> hsCode = trim s, hsCodeDescription = d, tradeType = tt,
                      timestamp = now env, requestId = uuid env \<rparr> 1),
            snd (makeRequest (net env)
                    \<lparr> hsCode = trim s, hsCodeDescription = d, tradeType = tt,
                      timestamp = now env, requestId = uuid env \<rparr> 1))"
    by auto
qed

theorem processTradeData_validation_witness:
  "processTradeData (exampleEnv err500) (JStr (js ''12345'')) (JStr (js ''Import'')) =
     ([], Inl (js ''Invalid HTS code format. Must be exactly 10 digits.'')) \<and>
   processTradeData (exampleEnv err500) (JStr (js '' 1234567890  '')) (JStr (js ''import'')) =
     ([], Inl (js ''Invalid trade type. Must be \"Import\" or \"Export\".'')) \<and>
   processTradeData (exampleEnv err500) (JStr (js '' 1234567890  '')) (JStr (js ''Import'')) =
     (Query (js ''1234567890'') # fst (makeRequest (rejecting err500 err500) examplePayload 1),
      snd (makeRequest (rejecting err500 err500) examplePayload 1))"
  using processTradeData_validation[of "exampleEnv err500" "JStr (js ''12345'')" "JStr (js ''Import'')" "[]"]
    processTradeData_validation[of "exampleEnv err500" "JStr (js '' 1234567890  '')" "JStr (js ''import'')" "[]"]
    processTradeData_validation[of "exampleEnv err500" "JStr (js '' 1234567890  '')" "JStr (js ''Import'')"
       "js '' 1234567890  ''"]
  apply (simp add: trim_example_spaces)
  apply (simp add: js_def isWhiteSpace_def trim_def exampleEnv_def examplePayload_def getHSCodeDescription_def)
  done

section \<open>Properties of the numbers\<close>

text \<open>Rounding is exact on the integers up to \<open>2 ^ 53\<close>.\<close>

lemma bits_pos: "0 < n \<Longrightarrow> 1 \<le> bits n"
proof -
  assume "0 < n"
  moreover have "0 \<le> bits m" for m
    by (induction m rule: bits.induct) (subst bits.simps, simp)
  ultimately show ?thesis by (subst bits.simps) (simp add: add_increasing2)
qed

lemma bits_bounds: "0 < n \<Longrightarrow> 2 ^ nat (bits n - 1) \<le> n \<and> n < 2 ^ nat (bits n)"
proof (induction n rule: bits.induct)
  case (1 n)
  show ?case
  proof (cases "n = 1")
    case True
    have "bits 1 = 1" by (subst bits.simps, simp) (subst bits.simps, simp)
    with True show ?thesis by simp
  next
    case False
    with "1.prems" have h: "0 < n div 2" by simp
    then have ih: "2 ^ nat (bits (n div 2) - 1) \<le> n div 2 \<and> n div 2 < 2 ^ nat (bits (n div 2))"
      using "1.IH" "1.prems" by simp
    have b: "bits n = 1 + bits (n div 2)" using "1.prems" by (subst bits.simps) simp
    have p: "1 \<le> bits (n div 2)" using h by (rule bits_pos)
    then have e1: "nat (bits n - 1) = Suc (nat (bits (n div 2) - 1))"
      using b by (simp add: nat_diff_distrib Suc_nat_eq_nat_zadd1)
    have e2: "nat (bits n) = Suc (nat (bits (n div 2)))"
      using b p by (simp add: Suc_nat_eq_nat_zadd1 add.commute)
    from ih have "2 * 2 ^ nat (bits (n div 2) - 1) \<le> n" by linarith
    moreover from ih have "n < 2 * 2 ^ nat (bits (n div 2))" by linarith
    ultimately show ?thesis unfolding e1 e2 by simp
  qed
qed

lemma round_even_of_int [simp]: "round_even (of_int z) = z"
  by (simp add: round_even_def)

lemma bits_one [simp]: "bits 1 = 1"
  by (subst bits.simps, simp) (subst bits.simps, simp)

lemma ilog2_of_int: "0 < n \<Longrightarrow> ilog2 (of_int n) = bits n - 1"
proof -
  assume n: "0 < n"
  have "(2::rat) ^ nat (bits n - 1) \<le> of_int n"
  proof -
    have "(of_int (2 ^ nat (bits n - 1)) :: rat) \<le> of_int n"
      using bits_bounds[OF n] by (simp only: of_int_le_iff)
    then show ?thesis by simp
  qed
  then show ?thesis
    using bits_pos[OF n] by (simp add: ilog2_def pow2_def)
qed

lemma fl_of_int_pos:
  assumes "0 < n" and "n \<le> 2 ^ 53"
  shows "fl (of_int n) = Num (of_int n)"
proof -
  define e where "e = bits n - 1"
  have e0: "0 \<le> e" using bits_pos[OF assms(1)] by (simp add: e_def)
  have lo: "2 ^ nat e \<le> n" using bits_bounds[OF assms(1)] by (simp add: e_def)
  with assms(2) have "(2::int) ^ nat e \<le> 2 ^ 53" by linarith
  then have e53: "nat e \<le> 53" by (rule power_le_imp_le_exp[rotated]) simp
  have il: "ilog2 \<bar>of_int n\<bar> = e"
    using assms(1) ilog2_of_int[OF assms(1)] by (simp add: e_def)
  have small: "(of_int n :: rat) < pow2 1024"
  proof -
    have "n < 2 ^ 1024" using assms(2) by (rule order_le_less_trans) simp
    then have "(of_int n :: rat) < of_int (2 ^ 1024)" by (simp only: of_int_less_iff)
    then show ?thesis by (simp add: pow2_def)
  qed
  have r: "of_int (round_even (\<bar>of_int n\<bar> / pow2 (e - 52))) * pow2 (e - 52) = (of_int n :: rat)"
  proof (cases "e \<le> 52")
    case True
    then have u: "pow2 (e - 52) = 1 / 2 ^ nat (52 - e)"
      by (cases "e = 52") (simp_all add: pow2_def)
    have "\<bar>of_int n\<bar> / pow2 (e - 52) = (of_int (n * 2 ^ nat (52 - e)) :: rat)"
      using assms(1) by (simp add: u)
    then have "round_even (\<bar>of_int n\<bar> / pow2 (e - 52)) = n * 2 ^ nat (52 - e)"
      by (simp only: round_even_of_int)
    then show ?thesis by (simp add: u)
  next
    case False
    with e53 e0 have e: "e = 53" by linarith
    with lo assms(2) have n: "n = 2 ^ 53" by simp
    have "\<bar>of_int n\<bar> / pow2 (e - 52) = (of_int (2 ^ 52) :: rat)"
      by (simp add: n e pow2_def)
    then have "round_even (\<bar>of_int n\<bar> / pow2 (e - 52)) = 2 ^ 52"
      by (simp only: round_even_of_int)
    then show ?thesis by (simp add: n e pow2_def)
  qed
  have "max e (- 1022) = e" using e0 by simp
  with assms(1) il r small show ?thesis
    by (simp add: fl_def Let_def)
qed

lemma fl_of_nat: "n \<le> 2 ^ 53 \<Longrightarrow> fl (of_nat n) = Num (of_nat n)"
proof (cases "n = 0")
  case True
  then show ?thesis by (simp add: fl_def)
next
  case False
  assume "n \<le> 2 ^ 53"
  then have "int n \<le> 2 ^ 53" by (metis of_nat_le_iff of_nat_numeral of_nat_power)
  with False have "fl (of_int (int n)) = Num (of_int (int n))"
    by (intro fl_of_int_pos) simp_all
  then show ?thesis by simp
qed

lemma fl_numeral [simp]:
  "(numeral k :: nat) \<le> 9007199254740992 \<Longrightarrow> fl (numeral k) = Num (numeral k)"
  using fl_of_nat[of "numeral k"] by simp

lemma fl_zero [simp]: "fl 0 = Num 0" by (simp add: fl_def)
lemma fl_one [simp]: "fl 1 = Num 1" using fl_of_nat[of 1] by simp

lemma fl_tie: "fl 9007199254740993 = Num 9007199254740992"
  by code_simp

lemma fl_even: "fl 9007199254740994 = Num 9007199254740994"
  by code_simp

text \<open>An integer above \<open>2 ^ 53\<close> is not rounded below \<open>2 ^ 53\<close>.\<close>

lemma fl_of_int_large:
  assumes "2 ^ 53 \<le> x"
  shows "fl (of_int x) = PosInf \<or> (\<exists>r. fl (of_int x) = Num r \<and> 2 ^ 53 \<le> r)"
proof -
  have xp: "0 < x" using assms by (rule less_le_trans[rotated]) simp
  define e where "e = bits x - 1"
  have lo: "2 ^ nat e \<le> x" and hi: "x < 2 ^ nat (bits x)"
    using bits_bounds[OF xp] by (simp_all add: e_def)
  have "(2::int) ^ 53 < 2 ^ nat (bits x)" using assms hi by linarith
  then have "53 < nat (bits x)" by (rule power_less_imp_less_exp[rotated]) simp
  then have e53: "53 \<le> e" by (simp add: e_def)
  have il: "ilog2 \<bar>of_int x\<bar> = e"
    using xp ilog2_of_int[OF xp] by (simp add: e_def)
  define u :: rat where "u = 2 ^ nat (e - 52)"
  have u: "pow2 (e - 52) = u" using e53 by (simp add: pow2_def u_def)
  have up: "0 < u" by (simp add: u_def)
  have ee: "(2::rat) ^ nat e = 2 ^ 52 * u"
  proof -
    have "nat e = 52 + nat (e - 52)" using e53 by simp
    then show ?thesis unfolding u_def by (simp only: power_add)
  qed
  have "(of_int (2 ^ nat e) :: rat) \<le> of_int x" using lo by (simp only: of_int_le_iff)
  then have "2 ^ 52 * u \<le> (of_int x :: rat)" using ee by simp
  then have "2 ^ 52 \<le> (of_int x :: rat) / u" using up by (simp add: pos_le_divide_eq)
  then have "(of_int (2 ^ 52) :: rat) \<le> of_int x / u" by simp
  then have "2 ^ 52 \<le> \<lfloor>(of_int x :: rat) / u\<rfloor>" by (simp only: le_floor_iff)
  moreover have "\<lfloor>y\<rfloor> \<le> round_even y" for y by (simp add: round_even_def Let_def)
  ultimately have "2 ^ 52 \<le> round_even (of_int x / u)" by (rule order_trans)
  then have "(of_int (2 ^ 52) :: rat) \<le> of_int (round_even (of_int x / u))"
    by (simp only: of_int_le_iff)
  then have "2 ^ 52 * u \<le> of_int (round_even (of_int x / u)) * u"
    using up by (simp add: mult_right_mono)
  moreover have "(2::rat) ^ 53 \<le> 2 ^ 52 * u"
  proof -
    have "1 \<le> nat (e - 52)" using e53 by simp
    then have "(2::rat) ^ 1 \<le> 2 ^ nat (e - 52)" by (intro power_increasing) simp_all
    then have "2 \<le> u" by (simp add: u_def)
    then show ?thesis by simp
  qed
  ultimately have r: "2 ^ 53 \<le> of_int (round_even (of_int x / u)) * u" by (rule order_trans[rotated])
  have "max e (- 1022) = e" using e53 by simp
  with xp il u r show ?thesis by (simp add: fl_def Let_def)
qed

lemma fl_of_int_neq:
  assumes "0 < i" and "i < 2 ^ 53" and "i < x"
  shows "fl (of_int x) \<noteq> Num (of_int i)"
proof (cases "x \<le> 2 ^ 53")
  case True
  have "0 < x" using assms by simp
  then have "fl (of_int x) = Num (of_int x)" using True by (rule fl_of_int_pos)
  then show ?thesis using assms(3) by simp
next
  case False
  then have "2 ^ 53 \<le> x" by simp
  from fl_of_int_large[OF this] show ?thesis
  proof
    assume "fl (of_int x) = PosInf"
    then show ?thesis by simp
  next
    assume "\<exists>r. fl (of_int x) = Num r \<and> 2 ^ 53 \<le> r"
    then obtain r where r: "fl (of_int x) = Num r" "2 ^ 53 \<le> r" by blast
    have "(of_int i :: rat) < of_int (2 ^ 53)" using assms(2) by (simp only: of_int_less_iff)
    then have "(of_int i :: rat) < r" using r(2) by simp
    then show ?thesis using r(1) by simp
  qed
qed

section \<open>Properties of the record validator\<close>

lemma isNumber_iff: "isNumber v \<longleftrightarrow> (\<exists>n. v = JNum n)"
  by (cases v) simp_all

lemma isNaN_iff: "isNaN n \<longleftrightarrow> n = NaN"
  by (cases n) simp_all

lemma isValidStat_iff:
  "isValidStat r \<longleftrightarrow>
     truthy r \<and>
     (\<exists>y m v w. prop_of r (js ''year_val'') = JNum y \<and> prop_of r (js ''month_val'') = JNum m \<and>
        prop_of r (js ''value'') = JNum v \<and> prop_of r (js ''volume'') = JNum w \<and>
        v \<noteq> NaN \<and> w \<noteq> NaN)"
  by (auto simp: isValidStat_def isNumber_iff isNaN_iff)

text \<open>
  Claim C2, as amended.  The validator retains exactly the rows that are present (truthy)
  and whose \<open>year_val\<close>, \<open>month_val\<close>, \<open>value\<close> and \<open>volume\<close> are numbers with \<open>value\<close> and
  \<open>volume\<close> not NaN; every other row is dropped; the retained rows are unchanged and keep
  their order; a null result yields the empty sequence.  Finiteness and sign are not
  tested.
\<close>

theorem validData_retains:
  "validData None = [] \<and>
   validData (Some rows) =
     filter (\<lambda>r. truthy r \<and>
        (\<exists>y m v w. prop_of r (js ''year_val'') = JNum y \<and> prop_of r (js ''month_val'') = JNum m \<and>
           prop_of r (js ''value'') = JNum v \<and> prop_of r (js ''volume'') = JNum w \<and>
           v \<noteq> NaN \<and> w \<noteq> NaN)) rows \<and>
   subseq (validData (Some rows)) rows"
  by (simp add: validData_def isValidStat_iff[abs_def])

theorem validData_retains_witness:
  "validData (Some [statRow (Num 2024) (Num 1) (Num 100) (Num 10), JNull,
                    statRow (Num 2024) (Num 2) NaN (Num 10),
                    JObj [(js ''year_val'', JNum (Num 2024)), (js ''month_val'', JNum (Num 3)),
                          (js ''value'', JStr (js ''12'')), (js ''volume'', JNum (Num 10))],
                    statRow (Num 2024) (Num 4) (Num 50) (Num 5)]) =
     [statRow (Num 2024) (Num 1) (Num 100) (Num 10), statRow (Num 2024) (Num 4) (Num 50) (Num 5)]"
  using validData_retains[of "[statRow (Num 2024) (Num 1) (Num 100) (Num 10), JNull,
                    statRow (Num 2024) (Num 2) NaN (Num 10),
                    JObj [(js ''year_val'', JNum (Num 2024)), (js ''month_val'', JNum (Num 3)),
                          (js ''value'', JStr (js ''12'')), (js ''volume'', JNum (Num 10))],
                    statRow (Num 2024) (Num 4) (Num 50) (Num 5)]"]
  by (simp add: statRow_def js_eq_iff)

text \<open>
  The claim as stated fails: a row whose value is \<open>-5\<close> and whose volume is \<open>Infinity\<close> is
  retained.
\<close>

theorem validData_keeps_negative_and_infinite:
  "validData (Some [statRow (Num 2024) (Num 1) (Num (- 5)) PosInf]) =
     [statRow (Num 2024) (Num 1) (Num (- 5)) PosInf] \<and>
   prop_of (statRow (Num 2024) (Num 1) (Num (- 5)) PosInf) (js ''value'') = JNum (Num (- 5)) \<and>
   prop_of (statRow (Num 2024) (Num 1) (Num (- 5)) PosInf) (js ''volume'') = JNum PosInf"
  by (simp add: validData_def isValidStat_def statRow_def js_eq_iff)

section \<open>Properties of the aggregator\<close>

subsection \<open>The map of the months\<close>

lemma map_of_map_set: "map_of (map_set m k v) = (map_of m)(k \<mapsto> v)"
  by (induction m k v rule: map_set.induct) (auto simp: fun_eq_iff)

lemma keys_map_set:
  "map fst (map_set m k v) = (if k \<in> fst ` set m then map fst m else map fst m @ [k])"
  by (induction m k v rule: map_set.induct) auto

lemma distinct_map_set: "distinct (map fst m) \<Longrightarrow> distinct (map fst (map_set m k v))"
  by (simp add: keys_map_set)

lemma sumJs_snoc: "sumJs (vs @ [v]) = jsadd (sumJs vs) v"
  by (simp add: sumJs_def)

lemma groupOf_snoc_other:
  "monthKey x \<noteq> k \<Longrightarrow> groupOf k (xs @ [x]) = groupOf k xs"
  by (simp add: groupOf_def)

lemma groupOf_snoc_same:
  "groupOf (monthKey x) (xs @ [x]) =
     \<lparr> month = monthKey x,
       total_value = jsadd (total_value (groupOf (monthKey x) xs)) (stat_value x),
       volume = jsadd (volume (groupOf (monthKey x) xs)) (stat_volume x),
       value_per_volume = jsdiv (jsadd (total_value (groupOf (monthKey x) xs)) (stat_value x))
                                (jsadd (volume (groupOf (monthKey x) xs)) (stat_volume x)),
       isLatest = None \<rparr>"
  by (simp add: groupOf_def Let_def sumJs_snoc)

lemma groupOf_absent:
  "k \<notin> monthKey ` set xs \<Longrightarrow>
   groupOf k xs = \<lparr> month = k, total_value = Num 0, volume = Num 0, value_per_volume = NaN,
                    isLatest = None \<rparr>"
proof -
  assume "k \<notin> monthKey ` set xs"
  then have "filter (\<lambda>s. monthKey s = k) xs = []"
    by (auto simp: filter_empty_conv)
  then show ?thesis by (simp add: groupOf_def sumJs_def Let_def)
qed

lemma monthlyData_invariant:
  "distinct (map fst (foldl addStat [] xs)) \<and>
   fst ` set (foldl addStat [] xs) = monthKey ` set xs \<and>
   (\<forall>k. map_of (foldl addStat [] xs) k =
          (if k \<in> monthKey ` set xs then Some (groupOf k xs) else None))"
proof (induction xs rule: rev_induct)
  case Nil
  show ?case by simp
next
  case (snoc x xs)
  let ?m = "foldl addStat [] xs"
  let ?k = "monthKey x"
  obtain c where step: "foldl addStat [] (xs @ [x]) = map_set ?m ?k c"
    and c: "c = groupOf ?k (xs @ [x])"
  proof (cases "?k \<in> monthKey ` set xs")
    case True
    with snoc have "map_of ?m ?k = Some (groupOf ?k xs)" by simp
    then have "addStat ?m x = map_set ?m ?k (groupOf ?k (xs @ [x]))"
      by (simp add: addStat_def Let_def groupOf_snoc_same) (simp add: groupOf_def Let_def)
    then show ?thesis using that by simp
  next
    case False
    with snoc have "map_of ?m ?k = None" by simp
    then have "addStat ?m x = map_set ?m ?k (groupOf ?k (xs @ [x]))"
      using groupOf_absent[OF False]
      by (simp add: addStat_def Let_def groupOf_snoc_same)
    then show ?thesis using that by simp
  qed
  have "distinct (map fst (foldl addStat [] (xs @ [x])))"
    using snoc step by (simp add: distinct_map_set del: foldl_append)
  moreover have "fst ` set (foldl addStat [] (xs @ [x])) = monthKey ` set (xs @ [x])"
  proof -
    have "set (map fst (map_set ?m ?k c)) = insert ?k (fst ` set ?m)"
      by (auto simp: keys_map_set)
    with snoc step show ?thesis by (simp del: foldl_append)
  qed
  moreover have "\<forall>k. map_of (foldl addStat [] (xs @ [x])) k =
          (if k \<in> monthKey ` set (xs @ [x]) then Some (groupOf k (xs @ [x])) else None)"
    using snoc step c by (auto simp: map_of_map_set groupOf_snoc_other simp del: foldl_append)
  ultimately show ?case by blast
qed

lemma markLatest_Nil [simp]: "markLatest [] = []"
  by (simp add: markLatest_def)

lemma markLatest_snoc [simp]: "markLatest (ds @ [d]) = ds @ [d \<lparr> isLatest := Some True \<rparr>]"
  by (simp add: markLatest_def nth_append)

lemma month_groupOf [simp]: "month (groupOf k xs) = k"
  by (simp add: groupOf_def Let_def)

lemma monthlyData_entries:
  assumes "(k, d) \<in> set (foldl addStat [] xs)"
  shows "d = groupOf k xs"
proof -
  have dist: "distinct (map fst (foldl addStat [] xs))"
    using monthlyData_invariant[of xs] by blast
  have look: "map_of (foldl addStat [] xs) k =
      (if k \<in> monthKey ` set xs then Some (groupOf k xs) else None)"
    using monthlyData_invariant[of xs] by blast
  have "map_of (foldl addStat [] xs) k = Some d"
    by (rule map_of_is_SomeI[OF dist assms])
  with look show ?thesis by (auto split: if_splits)
qed

lemma weights_inj:
  assumes "primaryWeight a = primaryWeight b" and "tertiaryWeight a = tertiaryWeight b"
  shows "a = b"
proof -
  consider "a = 45" | "a = 46" | "a = 43" | "48 \<le> a \<and> a \<le> 57" | "97 \<le> a \<and> a \<le> 122"
    | "65 \<le> a \<and> a \<le> 90"
    | "a \<noteq> 45 \<and> a \<noteq> 46 \<and> a \<noteq> 43 \<and> \<not> (48 \<le> a \<and> a \<le> 57) \<and> \<not> (97 \<le> a \<and> a \<le> 122) \<and>
       \<not> (65 \<le> a \<and> a \<le> 90)"
    by blast
  then show ?thesis
    using assms
    by cases (auto simp: primaryWeight_def tertiaryWeight_def split: if_splits)
qed

lemma collationKey_inj: "collationKey s = collationKey t \<Longrightarrow> s = t"
proof (induction s arbitrary: t)
  case Nil
  then show ?case by (simp add: collationKey_def)
next
  case (Cons a s)
  then obtain b t' where t: "t = b # t'" by (cases t) (auto simp: collationKey_def)
  with Cons.prems have "primaryWeight a = primaryWeight b" "tertiaryWeight a = tertiaryWeight b"
    "collationKey s = collationKey t'"
    by (simp_all add: collationKey_def)
  with Cons.IH t show ?case using weights_inj by blast
qed

lemma inj_collationKey: "inj collationKey"
  by (rule injI) (rule collationKey_inj)

lemma sorted_by_collation_unique:
  assumes "sorted (map collationKey as)" "distinct as"
    and "sorted (map collationKey bs)" "distinct bs" and "set as = set bs"
  shows "as = bs"
proof -
  have "distinct (map collationKey as)" "distinct (map collationKey bs)"
    using assms(2,4) by (simp_all add: distinct_map inj_on_subset[OF inj_collationKey])
  moreover have "set (map collationKey as) = set (map collationKey bs)"
    using assms(5) by simp
  ultimately have "map collationKey as = map collationKey bs"
    using assms(1,3) by (intro sorted_distinct_set_unique)
  then show ?thesis
    using inj_collationKey by (simp add: inj_map_eq_map)
qed

lemma sortedKeys_props:
  "sorted (map collationKey (sortedKeys xs))" "distinct (sortedKeys xs)"
  "set (sortedKeys xs) = monthKey ` set xs"
  by (simp_all add: sortedKeys_def)

lemma sortedKeys_cong:
  "monthKey ` set xs = monthKey ` set ys \<Longrightarrow> sortedKeys xs = sortedKeys ys"
  by (intro sorted_by_collation_unique) (simp_all add: sortedKeys_props)

lemma sorted_months:
  fixes xs :: "'a TradeStats_scheme list"
  defines "unmarked \<equiv> map (\<lambda>d. d \<lparr> isLatest := Some False \<rparr>) (map snd (foldl addStat [] xs))"
  shows "sort_key (\<lambda>d. collationKey (month d)) unmarked =
         map (\<lambda>k. (groupOf k xs) \<lparr> isLatest := Some False \<rparr>) (sortedKeys xs)"
proof -
  let ?m = "foldl addStat [] xs"
  let ?g = "\<lambda>k. (groupOf k xs) \<lparr> isLatest := Some False \<rparr>"
  let ?s = "sort_key (\<lambda>d. collationKey (month d)) unmarked"
  have entries: "d = ?g (month d)" if "d \<in> set unmarked" for d
  proof -
    from that obtain k d0 where "(k, d0) \<in> set ?m" "d = d0 \<lparr> isLatest := Some False \<rparr>"
      by (auto simp: unmarked_def)
    then show ?thesis using monthlyData_entries[of k d0 xs] by simp
  qed
  have months: "map month unmarked = map fst ?m"
  proof -
    have "month (snd p \<lparr> isLatest := Some False \<rparr>) = fst p" if "p \<in> set ?m" for p
      using that monthlyData_entries[of "fst p" "snd p" xs] by simp
    then show ?thesis by (simp add: unmarked_def)
  qed
  have "distinct (map month unmarked)"
    using months monthlyData_invariant[of xs] by simp
  then have d: "distinct (map month ?s)"
    by (simp add: distinct_map)
  have "sorted (map (\<lambda>d. collationKey (month d)) ?s)"
    by (rule sorted_sort_key)
  then have s: "sorted (map collationKey (map month ?s))"
    by (simp add: comp_def)
  have e: "set (map month ?s) = monthKey ` set xs"
  proof -
    have "set (map month ?s) = set (map month unmarked)" by simp
    also have "\<dots> = fst ` set ?m" using months by simp
    finally show ?thesis using monthlyData_invariant[of xs] by simp
  qed
  have keys: "map month ?s = sortedKeys xs"
    using s d e by (intro sorted_by_collation_unique) (simp_all only: sortedKeys_props)
  have "?s = map ?g (map month ?s)"
  proof -
    have "map (\<lambda>d. ?g (month d)) ?s = map (\<lambda>d. d) ?s"
      by (rule map_cong) (auto dest: entries)
    then show ?thesis by (simp add: comp_def)
  qed
  with keys show ?thesis by simp
qed

lemma chartData_closed:
  "chartData xs =
     markLatest (map (\<lambda>k. (groupOf k xs) \<lparr> isLatest := Some False \<rparr>) (sortedKeys xs))"
proof (cases "xs = []")
  case True
  then show ?thesis by (simp add: chartData_def sortedKeys_def)
next
  case False
  then show ?thesis
    unfolding chartData_def Let_def sorted_months markLatest_def by simp
qed

lemma map_month_markLatest [simp]: "map month (markLatest ds) = map month ds"
  by (cases ds rule: rev_cases) simp_all

lemma length_markLatest [simp]: "length (markLatest ds) = length ds"
  by (simp add: markLatest_def)

lemma isLatest_markLatest:
  assumes "\<And>d. d \<in> set ds \<Longrightarrow> isLatest d = Some False" and "i < length ds"
  shows "isLatest (markLatest ds ! i) = Some (i = length ds - 1)"
  using assms by (cases ds rule: rev_cases) (auto simp: nth_append)

lemma chartData_months:
  "map month (chartData xs) = sortedKeys xs"
  by (simp add: chartData_closed comp_def)

lemma chartData_isLatest:
  assumes "i < length (chartData xs)"
  shows "isLatest (chartData xs ! i) = Some (i = length (chartData xs) - 1)"
proof -
  let ?ds = "map (\<lambda>k. (groupOf k xs) \<lparr> isLatest := Some False \<rparr>)
                 (sortedKeys xs)"
  have "i < length ?ds" using assms by (simp add: chartData_closed)
  moreover have "isLatest d = Some False" if "d \<in> set ?ds" for d using that by auto
  ultimately have "isLatest (markLatest ?ds ! i) = Some (i = length ?ds - 1)"
    by (intro isLatest_markLatest) blast+
  then show ?thesis by (simp add: chartData_closed)
qed

lemma markLatest_elem:
  "d \<in> set (markLatest ds) \<Longrightarrow> \<exists>d0 \<in> set ds. \<exists>b. d = d0 \<lparr> isLatest := Some b \<rparr>"
  if "\<And>d. d \<in> set ds \<Longrightarrow> isLatest d = Some False"
proof (cases ds rule: rev_cases)
  case Nil
  assume "d \<in> set (markLatest ds)"
  with Nil show ?thesis by simp
next
  case (snoc ys y)
  assume "d \<in> set (markLatest ds)"
  with snoc have "d \<in> set ys \<or> d = y \<lparr> isLatest := Some True \<rparr>" by auto
  then show ?thesis
  proof
    assume "d \<in> set ys"
    with snoc that[of d] have "d \<in> set ds" "d = d \<lparr> isLatest := Some False \<rparr>" by auto
    then show ?thesis by blast
  next
    assume "d = y \<lparr> isLatest := Some True \<rparr>"
    with snoc show ?thesis by auto
  qed
qed

lemma chartData_elem:
  assumes "d \<in> set (chartData xs)"
  shows "\<exists>b. d = (groupOf (month d) xs) \<lparr> isLatest := Some b \<rparr> \<and> month d \<in> monthKey ` set xs"
proof -
  let ?ds = "map (\<lambda>k. (groupOf k xs) \<lparr> isLatest := Some False \<rparr>)
                 (sortedKeys xs)"
  have "\<exists>d0 \<in> set ?ds. \<exists>b. d = d0 \<lparr> isLatest := Some b \<rparr>"
    using assms unfolding chartData_closed by (intro markLatest_elem) auto
  then obtain k b where "k \<in> monthKey ` set xs" "d = (groupOf k xs) \<lparr> isLatest := Some b \<rparr>"
    by (auto simp: sortedKeys_props)
  then show ?thesis by auto
qed

subsection \<open>The digits of an integer\<close>

lemma digitsValue_snoc: "digitsValue (ds @ [c]) = 10 * digitsValue ds + (c - 48)"
  by (induction ds) (simp_all add: algebra_simps)

lemma digitsOf_digits: "c \<in> set (digitsOf n) \<Longrightarrow> isDigit c"
proof (induction n arbitrary: c rule: digitsOf.induct)
  case (1 n)
  show ?case
  proof (cases "n < 10")
    case True
    with 1(2) have "c = 48 + nat n" by (subst (asm) digitsOf.simps) simp
    with True show ?thesis by (simp add: isDigit_def)
  next
    case False
    with 1(2) have "c \<in> set (digitsOf (n div 10)) \<or> c = 48 + nat (n mod 10)"
      by (subst (asm) digitsOf.simps) auto
    then show ?thesis
    proof
      assume "c \<in> set (digitsOf (n div 10))"
      with 1(1)[OF False] show ?thesis .
    next
      assume c: "c = 48 + nat (n mod 10)"
      have "n mod 10 < 10" by simp
      then have "nat (n mod 10) \<le> 9" by linarith
      with c show ?thesis by (simp add: isDigit_def)
    qed
  qed
qed

lemma digitsOf_nonempty: "digitsOf n \<noteq> []"
  by (subst digitsOf.simps) simp

lemma digitsValue_digitsOf: "0 \<le> n \<Longrightarrow> digitsValue (digitsOf n) = nat n"
proof (induction n rule: digitsOf.induct)
  case (1 n)
  show ?case
  proof (cases "n < 10")
    case True
    then show ?thesis by (subst digitsOf.simps) simp
  next
    case False
    with 1 have ih: "digitsValue (digitsOf (n div 10)) = nat (n div 10)" by simp
    have "10 * nat (n div 10) + nat (n mod 10) = nat n"
    proof -
      have "0 \<le> n div 10" "0 \<le> n mod 10" using "1.prems" by simp_all
      then have "int (10 * nat (n div 10) + nat (n mod 10)) = 10 * (n div 10) + n mod 10"
        by simp
      also have "\<dots> = n" by simp
      finally show ?thesis by linarith
    qed
    with False ih show ?thesis
      by (subst digitsOf.simps) (simp add: digitsValue_snoc)
  qed
qed

lemma digitsOf_inj: "0 \<le> a \<Longrightarrow> 0 \<le> b \<Longrightarrow> digitsOf a = digitsOf b \<Longrightarrow> a = b"
  by (metis digitsValue_digitsOf int_nat_eq)

lemma length_digitsOf_one: "length (digitsOf n) = 1 \<longleftrightarrow> n < 10"
proof (cases "n < 10")
  case True
  then show ?thesis by (subst digitsOf.simps) simp
next
  case False
  then show ?thesis using digitsOf_nonempty[of "n div 10"]
    by (subst digitsOf.simps) (simp add: Suc_le_eq)
qed

lemma intString_inj: "intString a = intString b \<Longrightarrow> a = b"
proof -
  assume eq: "intString a = intString b"
  have nd: "\<not> isDigit 45" by (simp add: isDigit_def)
  have hd_nonneg: "isDigit (hd (digitsOf n))" for n
    using digitsOf_digits[of "hd (digitsOf n)" n] digitsOf_nonempty[of n] by simp
  show ?thesis
  proof (cases "a < 0")
    case True
    show ?thesis
    proof (cases "b < 0")
      case True
      with \<open>a < 0\<close> eq have "digitsOf (- a) = digitsOf (- b)"
        by (simp add: intString_def)
      with True \<open>a < 0\<close> have "- a = - b" by (intro digitsOf_inj) simp_all
      then show ?thesis by simp
    next
      case False
      with \<open>a < 0\<close> eq have "hd (digitsOf b) = 45"
        by (simp add: intString_def) (metis list.sel(1))
      with hd_nonneg[of b] nd show ?thesis by simp
    qed
  next
    case False
    show ?thesis
    proof (cases "b < 0")
      case True
      with False eq have "hd (digitsOf a) = 45"
        by (simp add: intString_def)
      with hd_nonneg[of a] nd show ?thesis by simp
    next
      case bf: False
      with False eq have "digitsOf a = digitsOf b"
        by (simp add: intString_def)
      with False bf show ?thesis by (intro digitsOf_inj) simp_all
    qed
  qed
qed

subsection \<open>The string of an integer\<close>

text \<open>
  For an integer of magnitude below \<open>2 ^ 53\<close>, \<open>Number::toString\<close> finds the decimal
  digits: the exponent is the number of digits; a candidate of fewer digits than the integer
  has without its final zeros is another integer, which rounds to itself or to a number not
  below \<open>2 ^ 53\<close>; the integer without its final zeros is found next.
\<close>

lemma pow10_nat [simp]: "pow10 (int k) = 10 ^ k"
  by (simp add: pow10_def)

lemma pow10_le_one: "k \<le> 0 \<Longrightarrow> pow10 k \<le> 1"
  by (cases "k = 0") (simp_all add: pow10_def)

lemma decimalExponent_eq:
  assumes "n0 \<le> m" and "\<And>j. n0 \<le> j \<Longrightarrow> j < m \<Longrightarrow> pow10 j \<le> q" and "q < pow10 m"
    and "nat (m - n0) < fuel"
  shows "decimalExponent fuel q n0 = m"
  using assms
proof (induction fuel arbitrary: n0)
  case 0
  then show ?case by simp
next
  case (Suc fuel)
  show ?case
  proof (cases "n0 = m")
    case True
    then show ?thesis using Suc.prems(3) by simp
  next
    case False
    then have lt: "n0 < m" using Suc.prems(1) by simp
    have "pow10 n0 \<le> q" using Suc.prems(2)[of n0] lt by simp
    then have nl: "\<not> q < pow10 n0" by simp
    have "decimalExponent fuel q (n0 + 1) = m"
    proof (rule Suc.IH)
      show "n0 + 1 \<le> m" using lt by simp
      show "pow10 j \<le> q" if "n0 + 1 \<le> j" "j < m" for j using Suc.prems(2)[of j] that by simp
      show "q < pow10 m" by (rule Suc.prems(3))
      show "nat (m - (n0 + 1)) < fuel" using Suc.prems(4) lt by linarith
    qed
    then show ?thesis using nl by simp
  qed
qed

lemma digitsOf_bounds:
  "0 < i \<Longrightarrow> 10 ^ (length (digitsOf i) - 1) \<le> i \<and> i < 10 ^ length (digitsOf i)"
proof (induction i rule: digitsOf.induct)
  case (1 n)
  show ?case
  proof (cases "n < 10")
    case True
    then have "digitsOf n = [48 + nat n]" by (subst digitsOf.simps) simp
    then show ?thesis using True "1.prems" by simp
  next
    case False
    then have d: "digitsOf n = digitsOf (n div 10) @ [48 + nat (n mod 10)]"
      by (subst digitsOf.simps) simp
    have pos: "0 < n div 10" using False by simp
    from "1.IH"[OF False pos]
    have ih: "10 ^ (length (digitsOf (n div 10)) - 1) \<le> n div 10"
      "n div 10 < 10 ^ length (digitsOf (n div 10))" by simp_all
    have ne: "length (digitsOf (n div 10)) \<noteq> 0" using digitsOf_nonempty[of "n div 10"] by simp
    then obtain l where l: "length (digitsOf (n div 10)) = Suc l" by (cases "length (digitsOf (n div 10))") simp_all
    from ih have "10 * 10 ^ l \<le> n" "n < 10 * 10 ^ Suc l" unfolding l by simp_all
    then show ?thesis unfolding d by (simp add: l)
  qed
qed

lemma digitsOf_shift: "0 < s \<Longrightarrow> digitsOf (s * 10 ^ z) = digitsOf s @ replicate z 48"
proof (induction z)
  case 0
  show ?case by simp
next
  case (Suc z)
  have big: "\<not> s * 10 ^ Suc z < 10"
  proof -
    have "(1::int) \<le> 10 ^ z" by simp
    then have "1 * 1 \<le> s * 10 ^ z" using Suc.prems by (intro mult_mono) simp_all
    then show ?thesis by simp
  qed
  have "digitsOf (s * 10 ^ Suc z) =
      digitsOf (s * 10 ^ Suc z div 10) @ [48 + nat (s * 10 ^ Suc z mod 10)]"
    using big by (subst digitsOf.simps) simp
  also have "s * 10 ^ Suc z div 10 = s * 10 ^ z" by simp
  also have "s * 10 ^ Suc z mod 10 = 0" by simp
  finally show ?case using Suc.IH[OF Suc.prems] by (simp add: replicate_append_same)
qed

lemma trailing_zeros:
  "0 < (i::int) \<Longrightarrow> \<exists>z. 10 ^ z dvd i \<and> \<not> 10 ^ Suc z dvd i"
proof (induction "nat i" arbitrary: i rule: less_induct)
  case less
  show ?case
  proof (cases "10 dvd i")
    case False
    then show ?thesis by (intro exI[of _ 0]) simp
  next
    case True
    then obtain j where j: "i = 10 * j" ..
    with less.prems have jp: "0 < j" by simp
    then have "nat j < nat i" using j by simp
    from less.hyps[OF this jp] obtain z where "10 ^ z dvd j" "\<not> 10 ^ Suc z dvd j" by blast
    then have "10 * 10 ^ z dvd 10 * j \<and> \<not> 10 * 10 ^ Suc z dvd 10 * j"
      by (simp only: dvd_mult_cancel_left) simp
    then have "10 ^ Suc z dvd i \<and> \<not> 10 ^ Suc (Suc z) dvd i" by (simp only: j power_Suc simp_thms)
    then show ?thesis by blast
  qed
qed

lemma shortestDigits_int:
  assumes ip: "0 < i" and i53: "i < 2 ^ 53"
    and lo: "10 ^ (n - 1) \<le> i"
    and z: "10 ^ z dvd i" "\<not> 10 ^ Suc z dvd i"
    and "z \<le> d" "d < n" "d - z < fuel"
  shows "shortestDigits fuel (of_int i) (int n) (int n - int d) = (i div 10 ^ z, int n)"
  using assms(6-8)
proof (induction fuel arbitrary: d)
  case 0
  then show ?case by simp
next
  case (Suc fuel)
  define l where "l = i div 10 ^ d"
  define p :: int where "p = 10 ^ d"
  have pp: "0 < p" by (simp add: p_def)
  have prat: "(10::rat) ^ d = of_int p" by (simp add: p_def)
  have e: "int n - (int n - int d) = int d" by simp
  have fl_lo: "\<lfloor>(of_int i :: rat) / of_int p\<rfloor> = l"
    unfolding l_def p_def by (rule floor_divide_of_int_eq)
  have "(10::int) ^ d \<le> 10 ^ (n - 1)" using Suc.prems(2) by (intro power_increasing) simp_all
  from this lo have dn: "p \<le> i" unfolding p_def by (rule order_trans)
  have lpos: "0 < l" unfolding l_def p_def[symmetric] using pp dn by (simp add: pos_imp_zdiv_pos_iff)
  have decomp: "i = l * p + i mod p" using div_mult_mod_eq[of i p] by (simp add: l_def p_def)
  have m0: "0 \<le> i mod p" and m1: "i mod p < p" using pp by simp_all
  have step: "shortestDigits (Suc fuel) (of_int i) (int n) (int n - int d) =
      (if fl (of_int (l * p)) = Num (of_int i) \<and>
          (fl (of_int ((l + 1) * p)) \<noteq> Num (of_int i) \<or>
           (of_int i :: rat) - of_int (l * p) < of_int ((l + 1) * p) - of_int i \<or>
           ((of_int i :: rat) - of_int (l * p) = of_int ((l + 1) * p) - of_int i \<and> even l))
       then (l, int n)
       else if fl (of_int ((l + 1) * p)) = Num (of_int i)
         then (if l + 1 = 10 ^ nat (int n - int d) then (10 ^ (nat (int n - int d) - 1), int n + 1)
               else (l + 1, int n))
         else shortestDigits fuel (of_int i) (int n) (int n - int d + 1))"
    by (simp only: shortestDigits.simps e pow10_nat prat fl_lo Let_def of_int_mult)
  show ?case
  proof (cases "d = z")
    case True
    have "i mod p = 0" using z(1) True by (simp add: p_def)
    with decomp have il: "l * p = i" by simp
    have ok: "fl (of_int (l * p)) = Num (of_int i)"
      unfolding il using ip i53 by (intro fl_of_int_pos) simp_all
    have "(of_int i :: rat) - of_int (l * p) < of_int ((l + 1) * p) - of_int i"
      using pp by (simp add: il[symmetric] algebra_simps)
    with ok show ?thesis unfolding step by (simp add: l_def True)
  next
    case False
    then have dz: "Suc z \<le> d" using Suc.prems(1) by simp
    have nd: "\<not> p dvd i"
    proof
      assume "p dvd i"
      moreover have "(10::int) ^ Suc z dvd 10 ^ d" using dz by (rule le_imp_power_dvd)
      ultimately have "10 ^ Suc z dvd i" unfolding p_def by (rule dvd_trans[rotated])
      with z(2) show False by simp
    qed
    then have "i mod p \<noteq> 0" by (simp add: dvd_eq_mod_eq_0)
    with m0 have mpos: "0 < i mod p" by simp
    have lt1: "l * p < i" using decomp mpos by linarith
    have lt2: "i < (l + 1) * p" using decomp m1 by (simp add: algebra_simps)
    have lp: "0 < l * p" using lpos pp by simp
    have "fl (of_int (l * p)) = Num (of_int (l * p))"
      using lp lt1 i53 by (intro fl_of_int_pos) simp_all
    moreover have "(of_int (l * p) :: rat) \<noteq> of_int i" using lt1 by (simp only: of_int_eq_iff)
    ultimately have nLo: "fl (of_int (l * p)) \<noteq> Num (of_int i)" by (simp only: jsnum.inject simp_thms)
    have nHi: "fl (of_int ((l + 1) * p)) \<noteq> Num (of_int i)"
      using ip i53 lt2 by (rule fl_of_int_neq)
    have k1: "int n - int d + 1 = int n - int (d - 1)" using dz by simp
    have "shortestDigits fuel (of_int i) (int n) (int n - int (d - 1)) = (i div 10 ^ z, int n)"
    proof (rule Suc.IH)
      show "z \<le> d - 1" using dz by simp
      show "d - 1 < n" using Suc.prems(2) by simp
      show "d - 1 - z < fuel" using Suc.prems(3) dz by simp
    qed
    then show ?thesis unfolding step using nLo nHi by (simp only: k1 simp_thms if_False)
  qed
qed

lemma formatDecimal_int:
  assumes "0 < i" and "10 ^ z dvd i" and "length (digitsOf i) \<le> 21"
  shows "formatDecimal (i div 10 ^ z) (int (length (digitsOf i))) = digitsOf i"
proof -
  define s where "s = i div 10 ^ z"
  have i: "i = s * 10 ^ z" using assms(2) by (simp add: s_def)
  have sp: "0 < s" using assms(1) unfolding i by (simp add: zero_less_mult_iff)
  have d: "digitsOf i = digitsOf s @ replicate z 48" unfolding i using sp by (rule digitsOf_shift)
  then have len: "length (digitsOf i) = length (digitsOf s) + z" by simp
  show ?thesis
    using assms(3) unfolding s_def[symmetric] formatDecimal_def Let_def len
    by (simp add: d)
qed

lemma positiveString_int:
  assumes ip: "0 < i" and i53: "i < 2 ^ 53"
  shows "positiveString (of_int i) = digitsOf i"
proof -
  define n where "n = length (digitsOf i)"
  have b: "10 ^ (n - 1) \<le> i" "i < 10 ^ n" using digitsOf_bounds[OF ip] by (simp_all add: n_def)
  have n1: "1 \<le> n" using digitsOf_nonempty[of i] by (cases "digitsOf i") (simp_all add: n_def)
  have "(10::int) ^ (n - 1) < 10 ^ 16" using b(1) i53 by simp
  then have "n - 1 < 16" by (rule power_less_imp_less_exp[rotated]) simp
  then have n16: "n \<le> 16" by simp
  have de: "decimalExponent 640 (of_int i) (- 323) = int n"
  proof (rule decimalExponent_eq)
    show "- 323 \<le> int n" by simp
    show "(of_int i :: rat) < pow10 (int n)"
    proof -
      have "(of_int i :: rat) < of_int (10 ^ n)" using b(2) by (simp only: of_int_less_iff)
      then show ?thesis by simp
    qed
    show "nat (int n - - 323) < 640" using n16 by simp
    show "pow10 j \<le> of_int i" if "- 323 \<le> j" "j < int n" for j
    proof (cases "j \<le> 0")
      case True
      then have "pow10 j \<le> 1" by (rule pow10_le_one)
      moreover have "(of_int 1 :: rat) \<le> of_int i" using ip by (simp only: of_int_le_iff)
      ultimately show ?thesis by simp
    next
      case False
      then have j: "j = int (nat j)" by simp
      have "nat j \<le> n - 1" using that(2) False by simp
      then have "(10::int) ^ nat j \<le> 10 ^ (n - 1)" by (intro power_increasing) simp_all
      from this b(1) have "10 ^ nat j \<le> i" by (rule order_trans)
      then have "(of_int (10 ^ nat j) :: rat) \<le> of_int i" by (simp only: of_int_le_iff)
      then have "(10::rat) ^ nat j \<le> of_int i" by simp
      then show ?thesis by (subst j) (simp only: pow10_nat)
    qed
  qed
  from trailing_zeros[OF ip] obtain z where z: "10 ^ z dvd i" "\<not> 10 ^ Suc z dvd i" by blast
  have "10 ^ z \<le> i" using z(1) ip by (intro zdvd_imp_le) simp_all
  from this b(2) have "(10::int) ^ z < 10 ^ n" by (rule le_less_trans)
  then have zn: "z < n" by (rule power_less_imp_less_exp[rotated]) simp
  have "shortestDigits 17 (of_int i) (int n) (int n - int (n - 1)) = (i div 10 ^ z, int n)"
    using ip i53 b(1) z
  proof (rule shortestDigits_int)
    show "z \<le> n - 1" using zn by simp
    show "n - 1 < n" using n1 by simp
    show "n - 1 - z < 17" using n16 by simp
  qed
  moreover have "int n - int (n - 1) = 1" using n1 by simp
  ultimately have sd: "shortestDigits 17 (of_int i) (int n) 1 = (i div 10 ^ z, int n)" by simp
  have "formatDecimal (i div 10 ^ z) (int n) = digitsOf i"
    unfolding n_def using ip z(1) n16 by (intro formatDecimal_int) (simp_all add: n_def)
  then show ?thesis by (simp add: positiveString_def de sd)
qed

lemma numberToString_int:
  assumes "\<bar>i\<bar> < 2 ^ 53"
  shows "numberToString (Num (of_int i)) = intString i"
proof -
  consider "i = 0" | "0 < i" | "i < 0" by linarith
  then show ?thesis
  proof cases
    case 1
    have "digitsOf 0 = [48]" by (subst digitsOf.simps) simp
    with 1 show ?thesis by (simp add: intString_def js_def)
  next
    case 2
    then have "positiveString (of_int i) = digitsOf i" using assms by (intro positiveString_int) simp_all
    with 2 show ?thesis by (simp add: intString_def)
  next
    case 3
    then have "positiveString (of_int (- i)) = digitsOf (- i)"
      using assms by (intro positiveString_int) simp_all
    with 3 show ?thesis by (simp add: intString_def)
  qed
qed

subsection \<open>The keys\<close>

lemma takeWhile_digits:
  "takeWhile isDigit (digitsOf n @ 45 # r) = digitsOf n"
proof -
  have "takeWhile isDigit (digitsOf n @ 45 # r) = digitsOf n @ takeWhile isDigit (45 # r)"
    by (rule takeWhile_append2) (rule digitsOf_digits)
  then show ?thesis by (simp add: isDigit_def)
qed

lemma digits_split:
  assumes "digitsOf a @ 45 # r = digitsOf b @ 45 # r'"
  shows "digitsOf a = digitsOf b \<and> r = r'"
proof -
  have "takeWhile isDigit (digitsOf a @ 45 # r) = takeWhile isDigit (digitsOf b @ 45 # r')"
    using assms by simp
  then have "digitsOf a = digitsOf b" by (simp only: takeWhile_digits)
  with assms show ?thesis by simp
qed

lemma hd_digitsOf: "hd (digitsOf n @ r) \<noteq> 45"
proof -
  have "isDigit (hd (digitsOf n))"
    using digitsOf_digits[of "hd (digitsOf n)" n] digitsOf_nonempty[of n] by simp
  then show ?thesis
    using digitsOf_nonempty[of n] by (auto simp: isDigit_def)
qed

lemma intString_split:
  assumes "intString a @ 45 # r = intString b @ 45 # r'"
  shows "a = b \<and> r = r'"
proof -
  have "intString a = intString b \<and> r = r'"
  proof (cases "a < 0")
    case True
    show ?thesis
    proof (cases "b < 0")
      case True
      with \<open>a < 0\<close> assms show ?thesis
        using digits_split[of "- a" r "- b" r'] by (simp add: intString_def)
    next
      case False
      with \<open>a < 0\<close> assms have "hd (digitsOf b @ 45 # r') = 45"
        by (simp add: intString_def) (metis list.sel(1))
      with hd_digitsOf show ?thesis by blast
    qed
  next
    case False
    show ?thesis
    proof (cases "b < 0")
      case True
      with False assms have "hd (digitsOf a @ 45 # r) = 45"
        by (simp add: intString_def)
      with hd_digitsOf show ?thesis by blast
    next
      case bf: False
      with False assms show ?thesis
        using digits_split[of a r b r'] by (simp add: intString_def)
    qed
  qed
  then show ?thesis using intString_inj by blast
qed

lemma length_intString: "1 \<le> length (intString a)"
  using digitsOf_nonempty by (simp add: intString_def Suc_le_eq)

lemma two_chars_padded:
  assumes "intString b = [48, c]"
  shows False
proof -
  have nonneg: "\<not> b < 0" using assms by (auto simp: intString_def)
  with assms have d: "digitsOf b = [48, c]" by (simp add: intString_def)
  have "isDigit c" using digitsOf_digits[of c b] d by simp
  moreover have "digitsValue (digitsOf b) = c - 48" using d by simp
  ultimately have "nat b < 10" using nonneg digitsValue_digitsOf[of b]
    unfolding isDigit_def by simp arith
  then have "length (digitsOf b) = 1" using length_digitsOf_one[of b] by simp
  with d show False by simp
qed

lemma padStart_intString:
  "padStart 2 48 (intString a) =
     (if length (intString a) = 1 then 48 # intString a else intString a)"
  using length_intString[of a]
  by (cases "intString a") (auto simp: padStart_def numeral_2_eq_2 Suc_le_eq)

lemma padStart_inj:
  assumes "padStart 2 48 (intString a) = padStart 2 48 (intString b)"
  shows "a = b"
proof -
  have one: "\<exists>c. s = [c]" if "length s = 1" for s :: jsstring
    using that by (cases s) auto
  have "intString a = intString b"
  proof (cases "length (intString a) = 1")
    case True
    show ?thesis
    proof (cases "length (intString b) = 1")
      case True
      with \<open>length (intString a) = 1\<close> assms show ?thesis
        unfolding padStart_intString by simp
    next
      case False
      with True assms have "intString b = 48 # intString a"
        unfolding padStart_intString by simp
      with one[OF True] two_chars_padded[of b] show ?thesis by auto
    qed
  next
    case False
    show ?thesis
    proof (cases "length (intString b) = 1")
      case True
      with False assms have "intString a = 48 # intString b"
        unfolding padStart_intString by simp
      with one[OF True] two_chars_padded[of a] show ?thesis by auto
    next
      case bf: False
      with False assms show ?thesis
        unfolding padStart_intString by simp
    qed
  qed
  then show ?thesis by (rule intString_inj)
qed

lemma safe_number:
  assumes "isSafeInteger v"
  shows "v = Num (of_int (intOf v))" and "numberToString v = intString (intOf v)"
proof -
  from assms obtain q where v: "v = Num q" and sq: "q = of_int \<lfloor>q\<rfloor> \<and> \<bar>q\<bar> \<le> 2 ^ 53 - 1"
    by (cases v) (simp_all add: isSafeInteger_def)
  define n where "n = \<lfloor>q\<rfloor>"
  have q: "q = of_int n" using sq by (simp add: n_def)
  have iv: "intOf v = n" by (simp add: v q intOf_def)
  show "v = Num (of_int (intOf v))" unfolding iv by (simp add: v q)
  have "(of_int \<bar>n\<bar> :: rat) \<le> of_int (2 ^ 53 - 1)" using sq unfolding q by simp
  then have "\<bar>n\<bar> \<le> 2 ^ 53 - 1" by (simp only: of_int_le_iff)
  then have "\<bar>n\<bar> < 2 ^ 53" by simp
  then have "numberToString (Num (of_int n)) = intString n" by (rule numberToString_int)
  then show "numberToString v = intString (intOf v)" unfolding iv by (simp only: v q)
qed

lemma monthKey_safe:
  assumes "isSafeInteger (year_val s)" and "isSafeInteger (month_val s)"
  shows "monthKey s =
     intString (intOf (year_val s)) @ 45 # padStart 2 48 (intString (intOf (month_val s)))"
  using safe_number(2)[OF assms(1)] safe_number(2)[OF assms(2)]
  by (simp add: monthKey_def js_def)

lemma monthKey_inj:
  assumes "isSafeInteger (year_val s)" "isSafeInteger (month_val s)"
    and "isSafeInteger (year_val t)" "isSafeInteger (month_val t)"
  shows "monthKey s = monthKey t \<longleftrightarrow> year_val s = year_val t \<and> month_val s = month_val t"
proof
  assume "monthKey s = monthKey t"
  then have "intOf (year_val s) = intOf (year_val t) \<and>
      padStart 2 48 (intString (intOf (month_val s))) =
      padStart 2 48 (intString (intOf (month_val t)))"
    using intString_split[of "intOf (year_val s)" _ "intOf (year_val t)"]
    by (simp add: monthKey_safe assms)
  then have "intOf (year_val s) = intOf (year_val t) \<and> intOf (month_val s) = intOf (month_val t)"
    using padStart_inj by blast
  then show "year_val s = year_val t \<and> month_val s = month_val t"
    using safe_number(1)[OF assms(1)] safe_number(1)[OF assms(2)]
      safe_number(1)[OF assms(3)] safe_number(1)[OF assms(4)] by simp
next
  assume "year_val s = year_val t \<and> month_val s = month_val t"
  then show "monthKey s = monthKey t" by (simp add: monthKey_def)
qed

lemma digitsValue_bound:
  "(\<And>c. c \<in> set ds \<Longrightarrow> isDigit c) \<Longrightarrow> digitsValue ds < 10 ^ length ds"
proof (induction ds)
  case Nil
  show ?case by simp
next
  case (Cons c ds)
  define p :: nat where "p = 10 ^ length ds"
  have "c - 48 \<le> 9" using Cons.prems[of c] unfolding isDigit_def by simp arith
  then have a: "(c - 48) * p \<le> 9 * p" by (rule mult_le_mono1)
  have b: "digitsValue ds < p" using Cons by (simp add: p_def)
  from a b have "(c - 48) * p + digitsValue ds < 10 * p" by linarith
  then show ?case by (simp add: p_def)
qed

lemma less_digits:
  assumes "length ds = length es"
    and "\<And>c. c \<in> set ds \<Longrightarrow> isDigit c" and "\<And>c. c \<in> set es \<Longrightarrow> isDigit c"
  shows "ds < es \<longleftrightarrow> digitsValue ds < digitsValue es"
  using assms
proof (induction ds es rule: list_induct2)
  case Nil
  show ?case by simp
next
  case (Cons c ds e es)
  have ih: "ds < es \<longleftrightarrow> digitsValue ds < digitsValue es" using Cons by simp
  have bd: "digitsValue ds < 10 ^ length ds" using Cons.prems(1) by (intro digitsValue_bound) simp
  have be: "digitsValue es < 10 ^ length ds" using Cons.prems(2) Cons.hyps
    by (metis digitsValue_bound list.set_intros(2))
  have dc: "48 \<le> c" "48 \<le> e" using Cons.prems(1)[of c] Cons.prems(2)[of e] by (simp_all add: isDigit_def)
  define p :: nat where "p = 10 ^ length ds"
  have lt: "(c - 48) * p + digitsValue ds < (e - 48) * p + digitsValue es" if "c < e"
  proof -
    from that dc have "c - 48 + 1 \<le> e - 48" by simp
    then have "(c - 48 + 1) * p \<le> (e - 48) * p" by (rule mult_le_mono1)
    with bd show ?thesis by (simp add: p_def)
  qed
  have gt: "(e - 48) * p + digitsValue es < (c - 48) * p + digitsValue ds" if "e < c"
  proof -
    from that dc have "e - 48 + 1 \<le> c - 48" by simp
    then have "(e - 48 + 1) * p \<le> (c - 48) * p" by (rule mult_le_mono1)
    with be show ?thesis by (simp add: p_def)
  qed
  consider "c < e" | "c = e" | "e < c" by arith
  then show ?case
  proof cases
    case 1
    with lt show ?thesis using Cons.hyps by (simp add: p_def)
  next
    case 2
    with ih show ?thesis using Cons.hyps by simp
  next
    case 3
    with gt have "\<not> digitsValue (c # ds) < digitsValue (e # es)"
      using Cons.hyps by (simp add: p_def)
    with 3 show ?thesis by simp
  qed
qed

lemma less_append_same_length:
  "length a = length b \<Longrightarrow> a @ u < b @ v \<longleftrightarrow> a < b \<or> (a = b \<and> u < v)"
  for a b u v :: jsstring
  by (induction a b rule: list_induct2) auto

lemma length_digitsOf:
  "10 ^ k \<le> n \<Longrightarrow> n < 10 ^ Suc k \<Longrightarrow> length (digitsOf n) = Suc k"
proof (induction k arbitrary: n)
  case 0
  then show ?case using length_digitsOf_one[of n] by simp
next
  case (Suc k)
  have "10 ^ k \<le> n div 10" using Suc.prems(1) by simp
  moreover have "n div 10 < 10 ^ Suc k" using Suc.prems(2) by simp
  ultimately have "length (digitsOf (n div 10)) = Suc k" by (rule Suc.IH)
  moreover have "\<not> n < 10"
  proof -
    have "(1::int) \<le> 10 ^ k" by simp
    then have "(10::int) \<le> 10 ^ Suc k" by simp
    with Suc.prems(1) show ?thesis by linarith
  qed
  ultimately show ?case by (subst digitsOf.simps) simp
qed

lemma primaryWeight_plain:
  "c = 45 \<or> isDigit c \<Longrightarrow> primaryWeight c = (if c = 45 then 0 else c - 45)"
  unfolding primaryWeight_def isDigit_def by (cases "c = 45") simp_all

lemma tertiaryWeight_plain: "c = 45 \<or> isDigit c \<Longrightarrow> tertiaryWeight c = 0"
  unfolding tertiaryWeight_def isDigit_def by (cases "c = 45") simp_all

lemma plain_weights:
  assumes "c = 45 \<or> isDigit c" and "d = 45 \<or> isDigit d"
  shows "primaryWeight c < primaryWeight d \<longleftrightarrow> c < d"
    and "primaryWeight c = primaryWeight d \<longleftrightarrow> c = d"
proof -
  have c: "c = 45 \<or> 48 \<le> c" and d: "d = 45 \<or> 48 \<le> d"
    using assms by (auto simp: isDigit_def)
  show "primaryWeight c < primaryWeight d \<longleftrightarrow> c < d"
    unfolding primaryWeight_plain[OF assms(1)] primaryWeight_plain[OF assms(2)]
    using c d by (cases "c = 45"; cases "d = 45") (simp_all, arith+)
  show "primaryWeight c = primaryWeight d \<longleftrightarrow> c = d"
    unfolding primaryWeight_plain[OF assms(1)] primaryWeight_plain[OF assms(2)]
    using c d by (cases "c = 45"; cases "d = 45") (simp_all, arith+)
qed

lemma plain_primary:
  assumes "\<And>c. c \<in> set a \<Longrightarrow> c = 45 \<or> isDigit c" and "\<And>c. c \<in> set b \<Longrightarrow> c = 45 \<or> isDigit c"
  shows "map primaryWeight a < map primaryWeight b \<longleftrightarrow> a < b"
  using assms
proof (induction a arbitrary: b)
  case Nil
  then show ?case by (cases b) simp_all
next
  case (Cons c a)
  show ?case
  proof (cases b)
    case Nil
    then show ?thesis by simp
  next
    case (Cons d b')
    have ih: "map primaryWeight a < map primaryWeight b' \<longleftrightarrow> a < b'"
      using Cons.prems Cons by (intro Cons.IH) simp_all
    have "c = 45 \<or> isDigit c" "d = 45 \<or> isDigit d" using Cons.prems Cons by simp_all
    note w = plain_weights[OF this]
    show ?thesis using ih w by (simp add: Cons)
  qed
qed

lemma plain_collation:
  assumes "\<And>c. c \<in> set a \<Longrightarrow> c = 45 \<or> isDigit c" and "\<And>c. c \<in> set b \<Longrightarrow> c = 45 \<or> isDigit c"
  shows "collationKey a < collationKey b \<longleftrightarrow> a < b"
proof -
  have p: "map primaryWeight a < map primaryWeight b \<longleftrightarrow> a < b"
    using assms by (rule plain_primary)
  have "\<not> map tertiaryWeight a < map tertiaryWeight b" if "map primaryWeight a = map primaryWeight b"
  proof -
    have z: "map tertiaryWeight s = replicate (length s) 0"
      if "\<And>c. c \<in> set s \<Longrightarrow> c = 45 \<or> isDigit c" for s
      using that by (induction s) (auto simp: tertiaryWeight_plain)
    from \<open>map primaryWeight a = map primaryWeight b\<close> have "length a = length b"
      by (metis length_map)
    then show ?thesis using z[OF assms(1)] z[OF assms(2)] by simp
  qed
  with p show ?thesis by (auto simp: collationKey_def less_prod_def)
qed

lemma year_string:
  assumes "1000 \<le> y" and "y \<le> 9999"
  shows "length (intString y) = 4"
    and "\<And>c. c \<in> set (intString y) \<Longrightarrow> isDigit c"
    and "digitsValue (intString y) = nat y"
proof -
  have s: "intString y = digitsOf y" using assms by (simp add: intString_def)
  have "length (digitsOf y) = Suc 3"
    using assms by (intro length_digitsOf) simp_all
  then show "length (intString y) = 4" by (simp add: s)
  show "\<And>c. c \<in> set (intString y) \<Longrightarrow> isDigit c" by (simp add: s digitsOf_digits)
  show "digitsValue (intString y) = nat y" using assms by (simp add: s digitsValue_digitsOf)
qed

lemma month_string:
  assumes "0 \<le> m" and "m \<le> 99"
  shows "length (padStart 2 48 (intString m)) = 2"
    and "\<And>c. c \<in> set (padStart 2 48 (intString m)) \<Longrightarrow> isDigit c"
    and "digitsValue (padStart 2 48 (intString m)) = nat m"
proof -
  have s: "intString m = digitsOf m" using assms by (simp add: intString_def)
  have p: "padStart 2 48 (intString m) = (if m < 10 then 48 # digitsOf m else digitsOf m)"
    using padStart_intString[of m] length_digitsOf_one[of m] unfolding s by auto
  have l: "length (digitsOf m) = (if m < 10 then 1 else 2)"
  proof (cases "m < 10")
    case True
    then show ?thesis using length_digitsOf_one[of m] by simp
  next
    case False
    then have "length (digitsOf m) = Suc 1"
      using assms by (intro length_digitsOf) simp_all
    with False show ?thesis by simp
  qed
  show "length (padStart 2 48 (intString m)) = 2" by (simp add: p l)
  show "\<And>c. c \<in> set (padStart 2 48 (intString m)) \<Longrightarrow> isDigit c"
  proof -
    fix c assume "c \<in> set (padStart 2 48 (intString m))"
    then have "c = 48 \<or> c \<in> set (digitsOf m)" by (auto simp: p split: if_splits)
    then show "isDigit c" using digitsOf_digits[of c m] by (auto simp: isDigit_def)
  qed
  show "digitsValue (padStart 2 48 (intString m)) = nat m"
    using assms by (simp add: p l digitsValue_digitsOf)
qed

lemma intKey_less:
  assumes "1000 \<le> y" "y \<le> 9999" "0 \<le> m" "m \<le> 99"
    and "1000 \<le> y'" "y' \<le> 9999" "0 \<le> m'" "m' \<le> 99"
  shows "intString y @ 45 # padStart 2 48 (intString m)
           < intString y' @ 45 # padStart 2 48 (intString m')
         \<longleftrightarrow> y < y' \<or> (y = y' \<and> m < m')"
proof -
  let ?ys = "intString y" and ?yt = "intString y'"
  let ?ms = "padStart 2 48 (intString m)"
  let ?mt = "padStart 2 48 (intString m')"
  have ly: "length ?ys = length ?yt"
    using year_string(1)[OF assms(1,2)] year_string(1)[OF assms(5,6)] by simp
  have lm: "length ?ms = length ?mt"
    using month_string(1)[OF assms(3,4)] month_string(1)[OF assms(7,8)] by simp
  have y: "?ys < ?yt \<longleftrightarrow> y < y'"
    using less_digits[OF ly year_string(2)[OF assms(1,2)] year_string(2)[OF assms(5,6)]]
      year_string(3)[OF assms(1,2)] year_string(3)[OF assms(5,6)] assms(1,5) by auto
  have m: "?ms < ?mt \<longleftrightarrow> m < m'"
    using less_digits[OF lm month_string(2)[OF assms(3,4)] month_string(2)[OF assms(7,8)]]
      month_string(3)[OF assms(3,4)] month_string(3)[OF assms(7,8)] assms(3,7) by auto
  have ye: "?ys = ?yt \<longleftrightarrow> y = y'"
    using intString_inj[of y y'] by auto
  have "?ys @ 45 # ?ms < ?yt @ 45 # ?mt \<longleftrightarrow> ?ys < ?yt \<or> (?ys = ?yt \<and> ?ms < ?mt)"
    using less_append_same_length[OF ly, of "45 # ?ms" "45 # ?mt"] by simp
  with y m ye show ?thesis by simp
qed

lemma intString_plain: "c \<in> set (intString i) \<Longrightarrow> c = 45 \<or> isDigit c"
  using digitsOf_digits by (auto simp: intString_def split: if_splits)

lemma monthKey_plain:
  assumes "isSafeInteger (year_val s)" and "isSafeInteger (month_val s)"
    and "c \<in> set (monthKey s)"
  shows "c = 45 \<or> isDigit c"
proof -
  have "c \<in> set (intString (intOf (year_val s))) \<or> c = 45 \<or> c = 48 \<or>
        c \<in> set (intString (intOf (month_val s)))"
    using assms(3) unfolding monthKey_safe[OF assms(1,2)] padStart_def by auto
  then show ?thesis using intString_plain by (auto simp: isDigit_def)
qed

lemma sorted_key_le_last: "sorted (map f ks) \<Longrightarrow> k \<in> set ks \<Longrightarrow> f k \<le> f (last ks)"
  for f :: "jsstring \<Rightarrow> nat list \<times> nat list"
  by (induction ks) auto

lemma sorted_safe_keys:
  assumes "\<And>s. s \<in> set xs \<Longrightarrow> isSafeInteger (year_val s) \<and> isSafeInteger (month_val s)"
  shows "sorted_wrt (<) (sortedKeys xs)"
proof -
  have plain: "c = 45 \<or> isDigit c" if "k \<in> set (sortedKeys xs)" "c \<in> set k" for k c
  proof -
    from that(1) obtain s where "s \<in> set xs" "k = monthKey s"
      by (auto simp: sortedKeys_props)
    with assms that(2) show ?thesis using monthKey_plain by blast
  qed
  have "distinct (map collationKey (sortedKeys xs))"
    by (simp add: distinct_map sortedKeys_props inj_on_subset[OF inj_collationKey])
  with sortedKeys_props(1)[of xs] have "sorted_wrt (<) (map collationKey (sortedKeys xs))"
    by (simp add: strict_sorted_iff)
  then have "sorted_wrt (\<lambda>a b. collationKey a < collationKey b) (sortedKeys xs)"
    by (simp add: sorted_wrt_map)
  then show ?thesis
  proof (rule sorted_wrt_mono_rel[rotated])
    fix a b assume "a \<in> set (sortedKeys xs)" "b \<in> set (sortedKeys xs)"
      "collationKey a < collationKey b"
    then show "a < b" using plain_collation[of a b] plain by blast
  qed
qed

subsection \<open>Examples\<close>

lemma obs_sel [simp]:
  "year_val (obs y m v w) = Num (of_int y)" "month_val (obs y m v w) = Num (of_int m)"
  "stat_value (obs y m v w) = Num v" "stat_volume (obs y m v w) = Num w"
  by (simp_all add: obs_def)

lemma numberToString_numeral:
  "(numeral k :: int) < 9007199254740992 \<Longrightarrow>
     numberToString (Num (numeral k)) = intString (numeral k)"
  using numberToString_int[of "numeral k"] by simp

lemma numberToString_one: "numberToString (Num 1) = intString 1"
  using numberToString_int[of 1] by simp

lemma monthKey_examples:
  "monthKey (obs 2024 1 v w) = js ''2024-01''"
  "monthKey (obs 2024 2 v w) = js ''2024-02''"
  "monthKey (obs 2023 12 v w) = js ''2023-12''"
  "monthKey (obs 9999 1 v w) = js ''9999-01''"
  "monthKey (obs 10000 1 v w) = js ''10000-01''"
  by (simp_all add: monthKey_def numberToString_numeral numberToString_one intString_def
        digitsOf.simps padStart_def js_def del: numberToString.simps)

lemma chartData_example3:
  "chartData [obs 2024 2 200 20, obs 2023 12 5 1, obs 2024 1 100 10] =
     [\<lparr> month = js ''2023-12'', total_value = Num 5, volume = Num 1, value_per_volume = Num 5,
        isLatest = Some False \<rparr>,
      \<lparr> month = js ''2024-01'', total_value = Num 100, volume = Num 10, value_per_volume = Num 10,
        isLatest = Some False \<rparr>,
      \<lparr> month = js ''2024-02'', total_value = Num 200, volume = Num 20, value_per_volume = Num 10,
        isLatest = Some True \<rparr>]"
  by (simp add: chartData_def addStat_def Let_def monthKey_examples js_def collationKey_def
        primaryWeight_def tertiaryWeight_def)

lemma obs_safe:
  "\<bar>y\<bar> < 2 ^ 53 \<Longrightarrow> isSafeInteger (year_val (obs y m v w)) \<and> intOf (year_val (obs y m v w)) = y"
  "\<bar>m\<bar> < 2 ^ 53 \<Longrightarrow> isSafeInteger (month_val (obs y m v w)) \<and> intOf (month_val (obs y m v w)) = m"
proof -
  have "\<bar>(of_int i :: rat)\<bar> \<le> 2 ^ 53 - 1" if "\<bar>i\<bar> < 2 ^ 53" for i :: int
  proof -
    from that have "\<bar>i\<bar> \<le> 2 ^ 53 - 1" by simp
    then have "(of_int \<bar>i\<bar> :: rat) \<le> of_int (2 ^ 53 - 1)" by (simp only: of_int_le_iff)
    then show ?thesis by simp
  qed
  then show "\<bar>y\<bar> < 2 ^ 53 \<Longrightarrow>
      isSafeInteger (year_val (obs y m v w)) \<and> intOf (year_val (obs y m v w)) = y"
    "\<bar>m\<bar> < 2 ^ 53 \<Longrightarrow>
      isSafeInteger (month_val (obs y m v w)) \<and> intOf (month_val (obs y m v w)) = m"
    by (simp_all add: isSafeInteger_def intOf_def)
qed

lemma chartData_example_zero:
  "chartData [obs 2024 1 0 0, obs 2024 1 7 0] =
     [\<lparr> month = js ''2024-01'', total_value = Num 7, volume = Num 0, value_per_volume = PosInf,
        isLatest = Some True \<rparr>]"
  by (simp add: chartData_def addStat_def Let_def monthKey_examples js_def collationKey_def
        primaryWeight_def tertiaryWeight_def)

subsection \<open>The unit price\<close>

text \<open>
  Claim C1, as amended.  Every element of the output carries the sums of the values and of
  the volumes of the rows of its month, and its unit price is the quotient \<open>/\<close> of the two
  sums, whatever they are: the rounded quotient when the total volume is a number other
  than zero, and, when the total volume is zero, NaN for a total value of zero, Infinity
  for a positive and -Infinity for a negative total value.  The unit price is never
  omitted.
\<close>

theorem chartData_unit_price:
  "d \<in> set (chartData xs) \<Longrightarrow>
     total_value d = sumJs (map stat_value (filter (\<lambda>s. monthKey s = month d) xs)) \<and>
     volume d = sumJs (map stat_volume (filter (\<lambda>s. monthKey s = month d) xs)) \<and>
     value_per_volume d = jsdiv (total_value d) (volume d) \<and>
     (\<forall>v w. total_value d = Num v \<and> volume d = Num w \<and> w \<noteq> 0 \<longrightarrow>
        value_per_volume d = fl (v / w)) \<and>
     (\<forall>v. total_value d = Num v \<and> volume d = Num 0 \<longrightarrow>
        value_per_volume d = (if v = 0 then NaN else if 0 < v then PosInf else NegInf))"
proof -
  assume "d \<in> set (chartData xs)"
  then obtain b where d: "d = (groupOf (month d) xs) \<lparr> isLatest := Some b \<rparr>"
    using chartData_elem by blast
  have q: "value_per_volume d = jsdiv (total_value d) (volume d)"
    by (subst (1 2 3) d) (simp add: groupOf_def Let_def)
  have t: "total_value d = sumJs (map stat_value (filter (\<lambda>s. monthKey s = month d) xs))"
    by (subst d) (simp add: groupOf_def Let_def)
  have w: "volume d = sumJs (map stat_volume (filter (\<lambda>s. monthKey s = month d) xs))"
    by (subst d) (simp add: groupOf_def Let_def)
  from q t w show ?thesis by auto
qed

theorem chartData_unit_price_witness:
  "\<lparr> month = js ''2024-01'', total_value = Num 100, volume = Num 10, value_per_volume = Num 10,
      isLatest = Some False \<rparr>
     \<in> set (chartData [obs 2024 2 200 20, obs 2023 12 5 1, obs 2024 1 100 10]) \<and>
   fl (100 / 10) = Num 10 \<and>
   \<lparr> month = js ''2024-01'', total_value = Num 7, volume = Num 0, value_per_volume = PosInf,
      isLatest = Some True \<rparr>
     \<in> set (chartData [obs 2024 1 0 0, obs 2024 1 7 0])"
  using chartData_unit_price[of "\<lparr> month = js ''2024-01'', total_value = Num 100, volume = Num 10,
            value_per_volume = Num 10, isLatest = Some False \<rparr>"
          "[obs 2024 2 200 20, obs 2023 12 5 1, obs 2024 1 100 10]"]
        chartData_unit_price[of "\<lparr> month = js ''2024-01'', total_value = Num 7, volume = Num 0,
            value_per_volume = PosInf, isLatest = Some True \<rparr>"
          "[obs 2024 1 0 0, obs 2024 1 7 0]"]
  by (simp add: chartData_example3 chartData_example_zero)

text \<open>
  The claim as stated fails: a month whose total volume is zero gets the unit price
  Infinity, and NaN when its total value is zero too.
\<close>

theorem chartData_unit_price_of_zero_volume:
  "chartData [obs 2024 1 100 0, obs 2024 2 0 0] =
     [\<lparr> month = js ''2024-01'', total_value = Num 100, volume = Num 0, value_per_volume = PosInf,
        isLatest = Some False \<rparr>,
      \<lparr> month = js ''2024-02'', total_value = Num 0, volume = Num 0, value_per_volume = NaN,
        isLatest = Some True \<rparr>]"
  by (simp add: chartData_def addStat_def Let_def monthKey_examples js_def collationKey_def
        primaryWeight_def tertiaryWeight_def)

subsection \<open>The example of the specification\<close>

text \<open>
  Claim C5.  On the observations (2024, 1, 100, 10), (2024, 1, 50, 5), (2024, 2, 200, 20)
  the aggregator returns the month 2024-01 with total value 150, total volume 15, unit
  price 10 and the flag false, followed by the month 2024-02 with total value 200, total
  volume 20, unit price 10 and the flag true.
\<close>

theorem chartData_spec_example:
  "chartData [obs 2024 1 100 10, obs 2024 1 50 5, obs 2024 2 200 20] =
     [\<lparr> month = js ''2024-01'', total_value = Num 150, volume = Num 15, value_per_volume = Num 10,
        isLatest = Some False \<rparr>,
      \<lparr> month = js ''2024-02'', total_value = Num 200, volume = Num 20, value_per_volume = Num 10,
        isLatest = Some True \<rparr>]"
  by (simp add: chartData_def addStat_def Let_def monthKey_examples js_def collationKey_def
        primaryWeight_def tertiaryWeight_def)

subsection \<open>One element for each month, in the order of the keys\<close>




subsection \<open>The order of the input\<close>

lemma foldl_jsadd_counts:
  "(\<And>v. v \<in> set vs \<Longrightarrow> isCount v) \<Longrightarrow> a + sum_list (map countOf vs) \<le> 2 ^ 53 \<Longrightarrow>
   foldl jsadd (Num (of_nat a)) vs = Num (of_nat (a + sum_list (map countOf vs)))"
proof (induction vs arbitrary: a)
  case Nil
  show ?case by simp
next
  case (Cons v vs)
  have v: "v = Num (of_nat (countOf v))" using Cons.prems(1)[of v] by (simp add: isCount_def)
  have le: "a + countOf v \<le> 2 ^ 53" using Cons.prems(2) by simp
  have "jsadd (Num (of_nat a)) v = fl (of_nat (a + countOf v))"
    by (subst v) simp
  also have "\<dots> = Num (of_nat (a + countOf v))" using le by (rule fl_of_nat)
  finally have step: "jsadd (Num (of_nat a)) v = Num (of_nat (a + countOf v))" .
  have "foldl jsadd (Num (of_nat (a + countOf v))) vs =
      Num (of_nat (a + countOf v + sum_list (map countOf vs)))"
    using Cons.prems by (intro Cons.IH) (simp_all add: add.assoc)
  with step show ?case by (simp add: add.assoc)
qed

lemma sumJs_counts:
  assumes "\<And>v. v \<in> set vs \<Longrightarrow> isCount v" and "sum_list (map countOf vs) \<le> 2 ^ 53"
  shows "sumJs vs = Num (of_nat (sum_list (map countOf vs)))"
  using foldl_jsadd_counts[of vs 0] assms by (simp add: sumJs_def)

lemma sum_filter_mset:
  "mset xs = mset ys \<Longrightarrow>
   sum_list (map f (filter P xs)) = (sum_list (map f (filter P ys)) :: nat)"
proof -
  assume "mset xs = mset ys"
  then have "mset (map f (filter P xs)) = mset (map f (filter P ys))" by simp
  then show ?thesis by (metis sum_mset_sum_list)
qed

lemma groupOf_counts:
  assumes "mset xs = mset ys"
    and "\<And>s. s \<in> set xs \<Longrightarrow> isCount (stat_value s) \<and> isCount (stat_volume s)"
    and "sum_list (map (\<lambda>s. countOf (stat_value s)) xs) \<le> 2 ^ 53"
    and "sum_list (map (\<lambda>s. countOf (stat_volume s)) xs) \<le> 2 ^ 53"
  shows "groupOf k xs = groupOf k ys"
proof -
  let ?P = "\<lambda>s. monthKey s = k"
  have sets: "set ys = set xs" using assms(1) by (metis mset_eq_setD)
  have tot: "sum_list (map f ys) = (sum_list (map f xs) :: nat)" for f
    using sum_filter_mset[OF assms(1), of f "\<lambda>s. True"] by simp
  have sub: "sum_list (map f (filter ?P zs)) \<le> (sum_list (map f zs) :: nat)" for f zs
    by (rule sum_list_filter_le_nat)
  have val: "sumJs (map stat_value (filter ?P zs)) =
      Num (of_nat (sum_list (map (\<lambda>s. countOf (stat_value s)) (filter ?P zs))))"
    if "set zs = set xs" "sum_list (map (\<lambda>s. countOf (stat_value s)) zs) \<le> 2 ^ 53" for zs
    using sumJs_counts[of "map stat_value (filter ?P zs)"] that assms(2)
      sub[of "\<lambda>s. countOf (stat_value s)" zs]
    by (auto simp: comp_def)
  have vol: "sumJs (map stat_volume (filter ?P zs)) =
      Num (of_nat (sum_list (map (\<lambda>s. countOf (stat_volume s)) (filter ?P zs))))"
    if "set zs = set xs" "sum_list (map (\<lambda>s. countOf (stat_volume s)) zs) \<le> 2 ^ 53" for zs
    using sumJs_counts[of "map stat_volume (filter ?P zs)"] that assms(2)
      sub[of "\<lambda>s. countOf (stat_volume s)" zs]
    by (auto simp: comp_def)
  have "sumJs (map stat_value (filter ?P xs)) = sumJs (map stat_value (filter ?P ys))"
    using val[of xs] val[of ys] sets assms(3) tot[of "\<lambda>s. countOf (stat_value s)"]
      sum_filter_mset[OF assms(1), of "\<lambda>s. countOf (stat_value s)" ?P] by simp
  moreover have "sumJs (map stat_volume (filter ?P xs)) = sumJs (map stat_volume (filter ?P ys))"
    using vol[of xs] vol[of ys] sets assms(4) tot[of "\<lambda>s. countOf (stat_volume s)"]
      sum_filter_mset[OF assms(1), of "\<lambda>s. countOf (stat_volume s)" ?P] by simp
  ultimately show ?thesis by (simp add: groupOf_def Let_def)
qed

lemma chartData_cong:
  assumes "monthKey ` set xs = monthKey ` set ys"
    and "\<And>k. k \<in> monthKey ` set xs \<Longrightarrow> groupOf k xs = groupOf k ys"
  shows "chartData xs = chartData ys"
proof -
  have keys: "sortedKeys xs = sortedKeys ys" using assms(1) by (rule sortedKeys_cong)
  have "map (\<lambda>k. (groupOf k xs) \<lparr> isLatest := Some False \<rparr>) (sortedKeys xs) =
        map (\<lambda>k. (groupOf k ys) \<lparr> isLatest := Some False \<rparr>) (sortedKeys xs)"
    by (rule map_cong) (simp_all add: assms(2) sortedKeys_props)
  then have "chartData xs =
      markLatest (map (\<lambda>k. (groupOf k ys) \<lparr> isLatest := Some False \<rparr>) (sortedKeys xs))"
    by (simp only: chartData_closed)
  also have "\<dots> = chartData ys"
    by (simp only: chartData_closed keys)
  finally show ?thesis .
qed




end
